theory Spec2Isabelle
  imports Main "HOL-Library.Word"
begin

section \<open>The event loop of gnet (eventloop.go)\<close>

text \<open>
  The loop of \<^verbatim>\<open>eventloop.go\<close> is embedded by explicit state passing. A \<open>loop\<close> value holds
  what the Go \<^verbatim>\<open>loop\<close> struct holds (the scratch packet, the connection table), the store of
  the \<^verbatim>\<open>conn\<close> objects the table points to, and what the loop does to the outside: the
  chronological list of calls it made to the operating system, the Poller and the handler
  (\<open>trace\<close>), and the bytes each descriptor has accepted (\<open>wire\<close>).

  What the outside answers is a parameter: an \<open>env\<close> gives, for every call, the result of
  that call as a function of the calls made so far and the call's arguments. Every call
  extends the trace, so an \<open>env\<close> can answer two calls with the same arguments differently.
\<close>

subsection \<open>Values\<close>

type_synonym byte = "8 word"

text \<open>Go's \<^verbatim>\<open>error\<close> values that the loop tells apart; \<^verbatim>\<open>nil\<close> is \<open>None\<close> of \<open>error option\<close>.\<close>

datatype error = EAGAIN | ErrClosing | Errno nat

text \<open>
  What a function of the loop hands back: \<^verbatim>\<open>nil\<close>, an error, or a run-time panic of a slice
  expression out of range. Every call in the file is in tail position of its caller, so a
  panic leaves the dispatch like a returned value does.
\<close>

datatype ret = Ret_nil | Ret_err error | Panic

text \<open>
  Modelled from the spec: the type \<^verbatim>\<open>Action\<close> and its constants are declared outside
  \<^verbatim>\<open>eventloop.go\<close>. The spec names \<^verbatim>\<open>None\<close>, \<^verbatim>\<open>Close\<close>, \<^verbatim>\<open>Shutdown\<close> and a sentinel distinct from
  the three (\<^verbatim>\<open>DataRead\<close> in the code); an \<^verbatim>\<open>Action\<close> is an integer type in Go, so any other
  value can reach a switch. \<open>None_act\<close> is \<^verbatim>\<open>None\<close>.
\<close>

datatype Action = None_act | DataRead | Close | Shutdown | Other_act nat

text \<open>\<^verbatim>\<open>unix.Sockaddr\<close>: the interface value is one of the two internet structs, another
  implementation, or \<^verbatim>\<open>nil\<close>. \<^verbatim>\<open>[4]byte\<close> is a 4-tuple, \<^verbatim>\<open>[16]byte\<close> a list.\<close>

datatype sockaddr =
    SockaddrInet4 int "byte \<times> byte \<times> byte \<times> byte"
  | SockaddrInet6 (Port: int) (ZoneId: nat) (Addr: "byte list")
  | SockaddrUnix string
  | Sockaddr_nil

text \<open>\<^verbatim>\<open>net.Addr\<close>, as the conversion functions of package netpoll produce it.\<close>

datatype net_Addr = Addr_nil | IPAddr string "byte list" int string | UnixAddr string

subsection \<open>RingBuffer\<close>

text \<open>
  Modelled from the spec: package \<^verbatim>\<open>ringbuffer\<close> is not among the sources. The spec describes
  "a growable circular byte buffer supporting append, a zero-copy dual-segment read view,
  and advancing a read cursor", whose view yields "up to two contiguous byte ranges" when
  the buffer wraps. The model is a circular store \<open>rb_buf\<close> with a read cursor \<open>rb_r\<close> and
  the number \<open>rb_len\<close> of unread bytes, which lie at \<open>rb_r, rb_r + 1, ...\<close> modulo the size
  of the store.
\<close>

record RingBuffer =
  rb_buf :: "byte list"
  rb_r :: nat
  rb_len :: nat

definition New :: "nat \<Rightarrow> RingBuffer" where
  "New n = \<lparr>rb_buf = replicate n 0, rb_r = 0, rb_len = 0\<rparr>"

definition Length :: "RingBuffer \<Rightarrow> nat" where
  "Length b = rb_len b"

text \<open>The unread bytes in the order they were appended.\<close>

definition unread :: "RingBuffer \<Rightarrow> byte list" where
  "unread b = take (rb_len b) (drop (rb_r b) (rb_buf b) @ take (rb_r b) (rb_buf b))"

text \<open>The dual-segment view: the second segment is \<^verbatim>\<open>nil\<close> (\<open>None\<close>) unless the unread bytes
  wrap around the end of the store.\<close>

definition PreReadAll :: "RingBuffer \<Rightarrow> byte list \<times> byte list option" where
  "PreReadAll b =
     (if rb_len b = 0 then ([], None)
      else if rb_r b + rb_len b \<le> length (rb_buf b)
        then (take (rb_len b) (drop (rb_r b) (rb_buf b)), None)
      else (drop (rb_r b) (rb_buf b),
            Some (take (rb_r b + rb_len b - length (rb_buf b)) (rb_buf b))))"

text \<open>Advancing the read cursor by \<open>n\<close> bytes, at most by the unread ones.\<close>

definition Advance :: "RingBuffer \<Rightarrow> int \<Rightarrow> RingBuffer" where
  "Advance b n =
     (if n \<le> 0 then b
      else let k = min (nat n) (rb_len b)
           in b\<lparr>rb_r := (rb_r b + k) mod length (rb_buf b), rb_len := rb_len b - k\<rparr>)"

text \<open>Appending: in place behind the unread bytes when they fit, else into a grown store
  that holds exactly the old unread bytes and the new ones.\<close>

definition Write_rb :: "RingBuffer \<Rightarrow> byte list \<Rightarrow> RingBuffer" where
  "Write_rb b p =
     (if rb_len b + length p \<le> length (rb_buf b)
      then let rot = drop (rb_r b) (rb_buf b) @ take (rb_r b) (rb_buf b);
               rot' = take (rb_len b) rot @ p @ drop (rb_len b + length p) rot;
               k = length (rb_buf b) - rb_r b
           in b\<lparr>rb_buf := drop k rot' @ take k rot', rb_len := rb_len b + length p\<rparr>
      else \<lparr>rb_buf = unread b @ p, rb_r = 0, rb_len = rb_len b + length p\<rparr>)"

text \<open>The cursor and the count stay inside the store.\<close>

definition rb_wf :: "RingBuffer \<Rightarrow> bool" where
  "rb_wf b = ((rb_r b < length (rb_buf b) \<or> rb_r b = 0) \<and> rb_len b \<le> length (rb_buf b))"

subsection \<open>Connections, the loop and its trace\<close>

text \<open>The fields of \<^verbatim>\<open>conn\<close> that \<^verbatim>\<open>eventloop.go\<close> reads or writes (the back pointer
  \<^verbatim>\<open>loop\<close> is the state every function is passed).\<close>

record conn =
  fd :: int
  sa :: sockaddr
  extra :: "byte list"
  opened :: bool
  action :: Action
  localAddr :: net_Addr
  remoteAddr :: net_Addr
  inBuf :: RingBuffer
  outBuf :: RingBuffer

text \<open>One entry per call the loop makes to the outside. A stream connection is named by
  its place in the store; the datagram path passes a transient \<^verbatim>\<open>conn\<close> that is stored
  nowhere, so its event carries the value.\<close>

datatype event =
    EvAccept int
  | EvSetNonblock int
  | EvAddReadWrite int
  | EvAddWrite int
  | EvModRead int
  | EvDelete int
  | EvCloseFd int
  | EvRead int
  | EvWrite int "byte list"
  | EvRecvfrom int
  | EvSendto int "byte list" sockaddr
  | EvSetKeepAlive int int
  | EvOnOpened nat
  | EvReact nat
  | EvReactDatagram conn
  | EvPreWrite
  | EvOnClosed nat "error option"
  | EvSignalShutdown

text \<open>\<^verbatim>\<open>lp.svr\<close>: the listener (\<^verbatim>\<open>ln.fd\<close>, whether \<^verbatim>\<open>ln.pconn\<close> is set, \<^verbatim>\<open>ln.lnaddr\<close>, whether
  \<^verbatim>\<open>ln.ln\<close> is a \<^verbatim>\<open>*net.TCPListener\<close>) and the options. \<open>TCPKeepAlive\<close> is a
  \<^verbatim>\<open>time.Duration\<close>, in nanoseconds.\<close>

record server =
  ln_fd :: int
  ln_pconn :: bool
  ln_lnaddr :: net_Addr
  ln_is_TCPListener :: bool
  Ticker :: bool
  TCPKeepAlive :: int

record loop =
  idx :: int
  packet :: "byte list"
  connections :: "int \<rightharpoonup> nat"
  svr :: server
  store :: "nat \<Rightarrow> conn"
  next_ref :: nat
  trace :: "event list"
  wire :: "int \<Rightarrow> byte list"

text \<open>\<^verbatim>\<open>internal.Job\<close>, a closure \<^verbatim>\<open>func() error\<close>: it may do anything to the loop.\<close>

type_synonym Job = "loop \<Rightarrow> ret \<times> loop"

text \<open>
  The outside. Each field answers one kind of call, given the trace at the call. The
  constant \<^verbatim>\<open>connRingBufferSize\<close> and the two address conversions of package netpoll are
  declared outside \<^verbatim>\<open>eventloop.go\<close> and are parameters too. A handler callback is given the
  \<^verbatim>\<open>conn\<close> as it is at the call and is modelled by the values it returns.
\<close>

record env =
  Accept_res :: "event list \<Rightarrow> int \<Rightarrow> int \<times> sockaddr \<times> error option"
  SetNonblock_res :: "event list \<Rightarrow> int \<Rightarrow> error option"
  Read_res :: "event list \<Rightarrow> int \<Rightarrow> nat \<Rightarrow> int \<times> error option \<times> byte list"
  Write_res :: "event list \<Rightarrow> int \<Rightarrow> byte list \<Rightarrow> int \<times> error option"
  Recvfrom_res :: "event list \<Rightarrow> int \<Rightarrow> nat \<Rightarrow> int \<times> sockaddr \<times> error option \<times> byte list"
  AddReadWrite_res :: "event list \<Rightarrow> int \<Rightarrow> error option"
  Delete_res :: "event list \<Rightarrow> int \<Rightarrow> error option"
  OnOpened :: "event list \<Rightarrow> conn \<Rightarrow> byte list \<times> Action"
  React :: "event list \<Rightarrow> conn \<Rightarrow> byte list \<times> Action"
  OnClosed :: "event list \<Rightarrow> conn \<Rightarrow> error option \<Rightarrow> Action"
  SockaddrToTCPOrUnixAddr :: "sockaddr \<Rightarrow> net_Addr"
  SockaddrToUDPAddr :: "sockaddr \<Rightarrow> net_Addr"
  connRingBufferSize :: nat

definition emit :: "event \<Rightarrow> loop \<Rightarrow> loop" where
  "emit e s = s\<lparr>trace := trace s @ [e]\<rparr>"

text \<open>The events a step added to the trace.\<close>

definition new_events :: "loop \<Rightarrow> loop \<Rightarrow> event list" where
  "new_events s s' = drop (length (trace s)) (trace s')"

subsection \<open>System calls\<close>

text \<open>\<^verbatim>\<open>unix.Read(fd, p)\<close> reports \<open>(n, err)\<close> and leaves the bytes it received at the front
  of \<open>p\<close>, which keeps its length.\<close>

definition unix_Read :: "env \<Rightarrow> int \<Rightarrow> loop \<Rightarrow> (int \<times> error option) \<times> loop" where
  "unix_Read E d s =
     (let (n, err, bs) = Read_res E (trace s) d (length (packet s))
      in ((n, err),
          emit (EvRead d)
            (s\<lparr>packet := take (length (packet s)) bs @ drop (length bs) (packet s)\<rparr>)))"

text \<open>\<^verbatim>\<open>unix.Write(fd, p)\<close> reports \<open>(n, err)\<close>; without an error the descriptor has accepted
  the first \<open>n\<close> bytes of \<open>p\<close>.\<close>

definition unix_Write :: "env \<Rightarrow> int \<Rightarrow> byte list \<Rightarrow> loop \<Rightarrow> (int \<times> error option) \<times> loop" where
  "unix_Write E d p s =
     (let (n, err) = Write_res E (trace s) d p
      in ((n, err),
          emit (EvWrite d p)
            (s\<lparr>wire := (wire s)(d := wire s d @ (if err = None then take (nat n) p else []))\<rparr>)))"

text \<open>The slice expression \<^verbatim>\<open>p[:n]\<close>: it panics unless \<open>0 \<le> n \<le> cap(p)\<close>.\<close>

definition slice_to :: "byte list \<Rightarrow> int \<Rightarrow> byte list option" where
  "slice_to p n = (if 0 \<le> n \<and> n \<le> int (length p) then Some (take (nat n) p) else None)"

subsection \<open>The connection's write path\<close>

text \<open>
  Modelled from the spec: \<^verbatim>\<open>conn.write\<close> and \<^verbatim>\<open>conn.open\<close> are methods of \<^verbatim>\<open>conn\<close>, declared
  outside \<^verbatim>\<open>eventloop.go\<close>. The spec gives the handler "a write path that accepts bytes to
  send (queued if the socket is not immediately writable)", says of \<^verbatim>\<open>Read\<close> that output "is
  sent immediately via the write primitive", and of \<^verbatim>\<open>Opened\<close> that output is "queued/sent
  via the same write path used elsewhere". So one write is attempted, and the bytes the
  socket did not accept are appended to the connection's outbound buffer.
\<close>

definition conn_write :: "env \<Rightarrow> nat \<Rightarrow> byte list \<Rightarrow> loop \<Rightarrow> loop" where
  "conn_write E c buf s =
     (let ((n, err), s1) = unix_Write E (fd (store s c)) buf s;
          rest = (if err = None then drop (nat n) buf else buf)
      in if rest = [] then s1
         else s1\<lparr>store := (store s1)(c := (store s1 c)
                  \<lparr>outBuf := Write_rb (outBuf (store s1 c)) rest\<rparr>)\<rparr>)"

definition conn_open :: "env \<Rightarrow> nat \<Rightarrow> byte list \<Rightarrow> loop \<Rightarrow> loop" where
  "conn_open E c buf s = conn_write E c buf s"

subsection \<open>loopCloseConn and handleAction\<close>

definition loopCloseConn :: "env \<Rightarrow> nat \<Rightarrow> error option \<Rightarrow> loop \<Rightarrow> ret \<times> loop" where
  "loopCloseConn E c err s =
     (let d = fd (store s c);
          derr = Delete_res E (trace s) d;
          s1 = emit (EvDelete d) s;
          s2 = (if derr = None
                then emit (EvCloseFd d) (s1\<lparr>connections := (connections s1)(d := None)\<rparr>)
                else s1);
          a = OnClosed E (trace s2) (store s2 c) err;
          s3 = emit (EvOnClosed c err) s2
      in case a of
           None_act \<Rightarrow> (Ret_nil, s3)
         | Shutdown \<Rightarrow> (Ret_err ErrClosing, s3)
         | _ \<Rightarrow> (Ret_nil, s3))"

definition handleAction :: "env \<Rightarrow> nat \<Rightarrow> loop \<Rightarrow> ret \<times> loop" where
  "handleAction E c s =
     (case action (store s c) of
        None_act \<Rightarrow> (Ret_nil, s)
      | Close \<Rightarrow> loopCloseConn E c None s
      | Shutdown \<Rightarrow> (Ret_err ErrClosing, s)
      | _ \<Rightarrow> (Ret_nil, s))"

subsection \<open>loopOpened, loopRead, loopWrite\<close>

text \<open>A field assignment through the pointer \<^verbatim>\<open>c\<close>.\<close>

definition upd_conn :: "nat \<Rightarrow> (conn \<Rightarrow> conn) \<Rightarrow> loop \<Rightarrow> loop" where
  "upd_conn c f s = s\<lparr>store := (store s)(c := f (store s c))\<rparr>"

text \<open>\<^verbatim>\<open>time.Second\<close>, in nanoseconds.\<close>

definition time_Second :: int where
  "time_Second = 1000000000"

text \<open>\<^verbatim>\<open>sniffError\<close> only logs; the keep-alive call is recorded with its interval.\<close>

definition loopOpened :: "env \<Rightarrow> nat \<Rightarrow> loop \<Rightarrow> ret \<times> loop" where
  "loopOpened E c s =
     (let s1 = upd_conn c (\<lambda>k. k\<lparr>opened := True, localAddr := ln_lnaddr (svr s),
                                 remoteAddr := SockaddrToTCPOrUnixAddr E (sa k)\<rparr>) s;
          (out, a) = OnOpened E (trace s1) (store s1 c);
          s2 = emit (EvOnOpened c) s1;
          s3 = upd_conn c (\<lambda>k. k\<lparr>action := a\<rparr>) s2;
          s4 = (if TCPKeepAlive (svr s3) > 0 \<and> ln_is_TCPListener (svr s3)
                then emit (EvSetKeepAlive (fd (store s3 c))
                            (TCPKeepAlive (svr s3) div time_Second)) s3
                else s3);
          s5 = (if length out > 0 then conn_open E c out s4 else s4);
          s6 = (if Length (outBuf (store s5 c)) \<noteq> 0
                then emit (EvAddWrite (fd (store s5 c))) s5 else s5)
      in handleAction E c s6)"

text \<open>\<^verbatim>\<open>c.extra\<close> is a view of the loop's packet; the model keeps the bytes it shows at the
  time of the read.\<close>

definition loopRead :: "env \<Rightarrow> nat \<Rightarrow> loop \<Rightarrow> ret \<times> loop" where
  "loopRead E c s =
     (let ((n, err), s1) = unix_Read E (fd (store s c)) s
      in if n = 0 \<or> err \<noteq> None
         then (if err = Some EAGAIN then (Ret_nil, s1) else loopCloseConn E c err s1)
         else (case slice_to (packet s1) n of
                 None \<Rightarrow> (Panic, s1)
               | Some bs \<Rightarrow>
                   let s2 = upd_conn c (\<lambda>k. k\<lparr>extra := bs\<rparr>) s1;
                       (out, a) = React E (trace s2) (store s2 c);
                       s3 = emit (EvReact c) s2;
                       s4 = upd_conn c (\<lambda>k. k\<lparr>action := a\<rparr>) s3;
                       s5 = (if length out > 0 then conn_write E c out s4
                             else if a \<noteq> DataRead
                               then upd_conn c (\<lambda>k. k\<lparr>inBuf := Write_rb (inBuf k) (extra k)\<rparr>) s4
                             else s4)
                   in handleAction E c s5))"

text \<open>Lines 147 to 150, the end of \<^verbatim>\<open>loopWrite\<close> that both of its paths reach.\<close>

definition loopWrite_end :: "nat \<Rightarrow> loop \<Rightarrow> ret \<times> loop" where
  "loopWrite_end c s =
     (if Length (outBuf (store s c)) = 0
      then (Ret_nil, emit (EvModRead (fd (store s c))) s)
      else (Ret_nil, s))"

definition loopWrite :: "env \<Rightarrow> nat \<Rightarrow> loop \<Rightarrow> ret \<times> loop" where
  "loopWrite E c s =
     (let s0 = emit EvPreWrite s;
          (top, tail) = PreReadAll (outBuf (store s0 c));
          ((n, err), s1) = unix_Write E (fd (store s0 c)) top s0
      in if err \<noteq> None
         then (if err = Some EAGAIN then (Ret_nil, s1) else loopCloseConn E c err s1)
         else
           let s2 = upd_conn c (\<lambda>k. k\<lparr>outBuf := Advance (outBuf k) n\<rparr>) s1
           in (case tail of
                 Some seg \<Rightarrow>
                   if int (length top) = n
                   then let ((n', err'), s3) = unix_Write E (fd (store s2 c)) seg s2
                        in if err' \<noteq> None
                           then (if err' = Some EAGAIN then (Ret_nil, s3)
                                 else loopCloseConn E c err' s3)
                           else loopWrite_end c
                                  (upd_conn c (\<lambda>k. k\<lparr>outBuf := Advance (outBuf k) n'\<rparr>) s3)
                   else loopWrite_end c s2
               | None \<Rightarrow> loopWrite_end c s2))"

subsection \<open>loopUDPRead and loopAccept\<close>

text \<open>\<^verbatim>\<open>unix.Recvfrom(fd, p, 0)\<close> reports \<open>(n, peer, err)\<close> and leaves the datagram at the front
  of \<open>p\<close>.\<close>

definition unix_Recvfrom :: "env \<Rightarrow> int \<Rightarrow> loop \<Rightarrow> (int \<times> sockaddr \<times> error option) \<times> loop" where
  "unix_Recvfrom E d s =
     (let (n, peer, err, bs) = Recvfrom_res E (trace s) d (length (packet s))
      in ((n, peer, err),
          emit (EvRecvfrom d)
            (s\<lparr>packet := take (length (packet s)) bs @ drop (length bs) (packet s)\<rparr>)))"

text \<open>Lines 242 to 256: \<^verbatim>\<open>sa6\<close> starts as the zero value; the loop sets the bytes
  \<open>0, ..., 11\<close> to zero; a source that is neither struct leaves the zero value.\<close>

definition udp_sa6 :: "sockaddr \<Rightarrow> sockaddr" where
  "udp_sa6 peer =
     (case peer of
        SockaddrInet4 port (a0, a1, a2, a3) \<Rightarrow>
          SockaddrInet6 port 0
            ((fold (\<lambda>i a. a[i := 0]) [0..<12] (replicate 16 0))
               [12 := a0, 13 := a1, 14 := a2, 15 := a3])
      | SockaddrInet6 port zone a \<Rightarrow> SockaddrInet6 port zone a
      | _ \<Rightarrow> SockaddrInet6 0 0 (replicate 16 0))"

text \<open>The transient \<^verbatim>\<open>conn\<close> of a datagram: the literal sets three fields, the others keep
  their zero values. \<^verbatim>\<open>outBuf\<close> stays \<^verbatim>\<open>nil\<close> and is not used on this path; the buffer without
  a store stands for it.\<close>

definition udp_conn :: "env \<Rightarrow> loop \<Rightarrow> sockaddr \<Rightarrow> byte list \<Rightarrow> conn" where
  "udp_conn E s sa6 bs =
     \<lparr>fd = 0, sa = Sockaddr_nil, extra = [], opened = False, action = None_act,
      localAddr = ln_lnaddr (svr s), remoteAddr = SockaddrToUDPAddr E sa6,
      inBuf = Write_rb (New (connRingBufferSize E)) bs, outBuf = New 0\<rparr>"

definition loopUDPRead :: "env \<Rightarrow> int \<Rightarrow> loop \<Rightarrow> ret \<times> loop" where
  "loopUDPRead E d s =
     (let ((n, peer, err), s1) = unix_Recvfrom E d s
      in if err \<noteq> None \<or> n = 0 then (Ret_nil, s1)
         else (case slice_to (packet s1) n of
                 None \<Rightarrow> (Panic, s1)
               | Some bs \<Rightarrow>
                   let c = udp_conn E s1 (udp_sa6 peer) bs;
                       (out, a) = React E (trace s1) c;
                       s2 = emit (EvReactDatagram c) s1;
                       s3 = (if length out > 0
                             then emit (EvSendto d out peer) (emit EvPreWrite s2) else s2)
                   in (case a of
                         Shutdown \<Rightarrow> (Ret_err ErrClosing, s3)
                       | _ \<Rightarrow> (Ret_nil, s3))))"

text \<open>\<^verbatim>\<open>&conn{...}\<close> takes the next free place of the store.\<close>

definition loopAccept :: "env \<Rightarrow> int \<Rightarrow> loop \<Rightarrow> ret \<times> loop" where
  "loopAccept E d s =
     (if d = ln_fd (svr s)
      then if ln_pconn (svr s) then loopUDPRead E d s
           else
             let (nfd, peer, err) = Accept_res E (trace s) d;
                 s1 = emit (EvAccept d) s
             in (case err of
                   Some e \<Rightarrow> (if e = EAGAIN then (Ret_nil, s1) else (Ret_err e, s1))
                 | None \<Rightarrow>
                     let serr = SetNonblock_res E (trace s1) nfd;
                         s2 = emit (EvSetNonblock nfd) s1
                     in (case serr of
                           Some e \<Rightarrow> (Ret_err e, s2)
                         | None \<Rightarrow>
                             let c = next_ref s2;
                                 s3 = s2\<lparr>store := (store s2)(c :=
                                          \<lparr>fd = nfd, sa = peer, extra = [], opened = False,
                                           action = None_act, localAddr = Addr_nil,
                                           remoteAddr = Addr_nil,
                                           inBuf = New (connRingBufferSize E),
                                           outBuf = New (connRingBufferSize E)\<rparr>),
                                        next_ref := Suc c\<rparr>;
                                 aerr = AddReadWrite_res E (trace s3) nfd;
                                 s4 = emit (EvAddReadWrite nfd) s3
                             in (case aerr of
                                   None \<Rightarrow> (Ret_nil, s4\<lparr>connections := (connections s4)(nfd \<mapsto> c)\<rparr>)
                                 | Some e \<Rightarrow> (Ret_err e, s4))))
      else (Ret_nil, s))"

subsection \<open>The dispatch of loopRun\<close>

text \<open>The function literal that \<^verbatim>\<open>loopRun\<close> hands to \<^verbatim>\<open>Polling\<close> (lines 35 to 51).\<close>

definition dispatch :: "env \<Rightarrow> int \<Rightarrow> Job \<Rightarrow> loop \<Rightarrow> ret \<times> loop" where
  "dispatch E d job s =
     (if d = 0 then job s
      else (case connections s d of
              Some c \<Rightarrow>
                if \<not> opened (store s c) then loopOpened E c s
                else if Length (outBuf (store s c)) > 0 then loopWrite E c s
                else loopRead E c s
            | None \<Rightarrow> loopAccept E d s))"

text \<open>
  Modelled from the spec: \<^verbatim>\<open>Poller.Polling\<close> is a method of package netpoll. The spec: it
  invokes "\<^verbatim>\<open>dispatch(fd, job)\<close> once per readiness event until an error is returned", "then
  returns that error". The readiness events the operating system delivers are the list;
  when the list is used up the call is still waiting (\<open>None\<close>).
\<close>

fun Polling :: "(int \<Rightarrow> Job \<Rightarrow> loop \<Rightarrow> ret \<times> loop) \<Rightarrow> (int \<times> Job) list \<Rightarrow> loop \<Rightarrow> ret option \<times> loop" where
  "Polling f [] s = (None, s)"
| "Polling f ((d, job) # evs) s =
     (let (r, s') = f d job s
      in if r = Ret_nil then Polling f evs s' else (Some r, s'))"

text \<open>\<^verbatim>\<open>loopRun\<close>: the deferred \<^verbatim>\<open>signalShutdown\<close> runs once \<^verbatim>\<open>Polling\<close> has returned. The ticker
  goroutine is outside the loop's thread; its jobs reach the loop as events of descriptor 0.\<close>

definition loopRun :: "env \<Rightarrow> (int \<times> Job) list \<Rightarrow> loop \<Rightarrow> loop" where
  "loopRun E evs s =
     (let (r, s') = Polling (dispatch E) evs s
      in (case r of None \<Rightarrow> s' | Some e \<Rightarrow> emit EvSignalShutdown s'))"

subsection \<open>Notions the properties are stated with\<close>

text \<open>\<^verbatim>\<open>loopWrite\<close> called again on each of \<open>k\<close> write-readiness events of the connection, as
  long as it returns \<^verbatim>\<open>nil\<close>.\<close>

fun loopWrite_times :: "env \<Rightarrow> nat \<Rightarrow> nat \<Rightarrow> loop \<Rightarrow> ret \<times> loop" where
  "loopWrite_times E c 0 s = (Ret_nil, s)"
| "loopWrite_times E c (Suc k) s =
     (let (r, s') = loopWrite E c s
      in if r = Ret_nil then loopWrite_times E c k s' else (r, s'))"

text \<open>The byte stream of a connection: what its descriptor has accepted so far, followed
  by what is still queued in its outbound buffer.\<close>

definition stream :: "nat \<Rightarrow> loop \<Rightarrow> byte list" where
  "stream c s = wire s (fd (store s c)) @ unread (outBuf (store s c))"

text \<open>\<^verbatim>\<open>c.outBuf.Advance(n)\<close> as a step of the loop.\<close>

definition adv :: "nat \<Rightarrow> int \<Rightarrow> loop \<Rightarrow> loop" where
  "adv c n s = upd_conn c (\<lambda>k. k\<lparr>outBuf := Advance (outBuf k) n\<rparr>) s"

text \<open>What \<^verbatim>\<open>unix.Write\<close> promises: without an error it reports a count between 0 and the
  length of the buffer it was given.\<close>

definition write_in_range :: "env \<Rightarrow> bool" where
  "write_in_range E =
     (\<forall>t d p. snd (Write_res E t d p) = None \<longrightarrow>
        0 \<le> fst (Write_res E t d p) \<and> fst (Write_res E t d p) \<le> int (length p))"

text \<open>A socket on which a write either succeeds or would block.\<close>

definition write_never_fatal :: "env \<Rightarrow> bool" where
  "write_never_fatal E =
     (\<forall>t d p. snd (Write_res E t d p) = None \<or> snd (Write_res E t d p) = Some EAGAIN)"

text \<open>The writes among the events, in order.\<close>

fun writes_of :: "event list \<Rightarrow> (int \<times> byte list) list" where
  "writes_of [] = []"
| "writes_of (EvWrite d p # es) = (d, p) # writes_of es"
| "writes_of (e # es) = writes_of es"



text \<open>Every data callback for the stream connection \<open>c\<close> in a trace comes after an open
  callback for \<open>c\<close>.\<close>

definition react_after_open :: "nat \<Rightarrow> event list \<Rightarrow> bool" where
  "react_after_open c tr =
     (\<forall>i < length tr. tr ! i = EvReact c \<longrightarrow> EvOnOpened c \<in> set (take i tr))"

text \<open>The trace and the \<^verbatim>\<open>opened\<close> flags agree: a connection of the store is flagged exactly
  when its open callback is in the trace, places not yet taken have no callback in the
  trace, no open callback is there twice, data callbacks come after the open callback, and
  the table points into the part of the store that is taken.\<close>

definition open_inv :: "loop \<Rightarrow> bool" where
  "open_inv s =
     ((\<forall>c. (c < next_ref s \<longrightarrow> (opened (store s c) \<longleftrightarrow> EvOnOpened c \<in> set (trace s))) \<and>
           (next_ref s \<le> c \<longrightarrow> EvOnOpened c \<notin> set (trace s) \<and> EvReact c \<notin> set (trace s)) \<and>
           count_list (trace s) (EvOnOpened c) \<le> 1 \<and>
           react_after_open c (trace s)) \<and>
      (\<forall>d c. connections s d = Some c \<longrightarrow> c < next_ref s))"

text \<open>The open callback and the data callback of a stream connection.\<close>

fun is_callback :: "event \<Rightarrow> bool" where
  "is_callback (EvOnOpened c) = True"
| "is_callback (EvReact c) = True"
| "is_callback e = False"

text \<open>A step that calls neither of them, takes no place of the store, leaves every
  \<^verbatim>\<open>opened\<close> flag as it is and adds no entry to the table.\<close>

definition quiet_step :: "loop \<Rightarrow> loop \<Rightarrow> bool" where
  "quiet_step s s' =
     ((\<exists>es. trace s' = trace s @ es \<and> (\<forall>e \<in> set es. \<not> is_callback e)) \<and>
      next_ref s' = next_ref s \<and>
      (\<forall>k. opened (store s' k) = opened (store s k)) \<and>
      (\<forall>d k. connections s' d = Some k \<longrightarrow> connections s d = Some k))"

text \<open>A job that does nothing, for the examples.\<close>

definition job_nil :: Job where
  "job_nil s = (Ret_nil, s)"

text \<open>The job that stops the loop: it returns the shutdown error.\<close>

definition job_stop :: Job where
  "job_stop s = (Ret_err ErrClosing, s)"

subsection \<open>A concrete environment and concrete loops\<close>

text \<open>An environment in which every call succeeds: accept yields descriptor 7, a read
  yields three bytes, a write takes everything, every handler callback returns no output
  and \<^verbatim>\<open>None\<close>. The examples below change single fields of it.\<close>

definition env0 :: env where
  "env0 =
     \<lparr>Accept_res = (\<lambda>t d. (7, SockaddrInet4 4000 (10, 0, 0, 1), None)),
      SetNonblock_res = (\<lambda>t d. None),
      Read_res = (\<lambda>t d n. (3, None, [1, 2, 3])),
      Write_res = (\<lambda>t d p. (int (length p), None)),
      Recvfrom_res = (\<lambda>t d n. (2, SockaddrInet4 53 (1, 2, 3, 4), None, [9, 8])),
      AddReadWrite_res = (\<lambda>t d. None),
      Delete_res = (\<lambda>t d. None),
      OnOpened = (\<lambda>t k. ([], None_act)),
      React = (\<lambda>t k. ([], None_act)),
      OnClosed = (\<lambda>t k e. None_act),
      SockaddrToTCPOrUnixAddr = (\<lambda>a. Addr_nil),
      SockaddrToUDPAddr =
        (\<lambda>a. case a of SockaddrInet6 p z bs \<Rightarrow> IPAddr ''udp'' bs p [] | _ \<Rightarrow> Addr_nil),
      connRingBufferSize = 8\<rparr>"

text \<open>A slow socket: the second call of the trace would block, every other write takes
  one byte.\<close>

definition env_slow :: env where
  "env_slow =
     env0\<lparr>Write_res := (\<lambda>t d p. if length t = 2 then (- 1, Some EAGAIN)
                                 else (min 1 (int (length p)), None))\<rparr>"

definition conn0 :: conn where
  "conn0 =
     \<lparr>fd = 7, sa = SockaddrInet4 4000 (10, 0, 0, 1), extra = [], opened = True,
      action = None_act, localAddr = Addr_nil, remoteAddr = Addr_nil,
      inBuf = New 8, outBuf = New 8\<rparr>"

text \<open>A stream loop listening on descriptor 3 with no connection yet, the same loop with
  the opened connection \<open>conn0\<close> at place 0 of the store, and a datagram loop.\<close>

definition loop0 :: loop where
  "loop0 =
     \<lparr>idx = 0, packet = replicate 4 0, connections = Map.empty,
      svr = \<lparr>ln_fd = 3, ln_pconn = False, ln_lnaddr = Addr_nil, ln_is_TCPListener = True,
             Ticker = False, TCPKeepAlive = 0\<rparr>,
      store = (\<lambda>c. conn0), next_ref = 0, trace = [], wire = (\<lambda>d. [])\<rparr>"

definition loop1 :: loop where
  "loop1 = loop0\<lparr>connections := [7 \<mapsto> 0], next_ref := 1\<rparr>"


text \<open>An outbound buffer of capacity 4 whose unread bytes \<open>1, 2, 3\<close> wrap around the end of
  the store, and the loop whose connection holds it.\<close>

definition rb_wrapped :: RingBuffer where
  "rb_wrapped = \<lparr>rb_buf = [2, 3, 0, 1], rb_r = 3, rb_len = 3\<rparr>"

definition loop_out :: loop where
  "loop_out = loop1\<lparr>store := (\<lambda>c. conn0\<lparr>outBuf := rb_wrapped\<rparr>)\<rparr>"

section \<open>Properties of the ring buffer\<close>

lemma rot_eq: "r \<le> length xs \<Longrightarrow> drop r xs @ take r xs = rotate r xs"
  by (cases "r = length xs") (simp_all add: rotate_drop_take)

lemma take_rotate_drop:
  "m + k \<le> length ys \<Longrightarrow> take m (rotate k ys) = take m (drop k ys)"
  by (cases "k = length ys") (simp_all add: rotate_drop_take)

lemma New_wf: "rb_wf (New n)"
  by (simp add: New_def rb_wf_def)

lemma New_unread: "unread (New n) = []"
  by (simp add: New_def unread_def)

lemma length_unread: "rb_wf b \<Longrightarrow> length (unread b) = Length b"
  by (auto simp: unread_def rb_wf_def Length_def min_def)

lemma PreReadAll_unread:
  "rb_wf b \<Longrightarrow> PreReadAll b = (seg1, seg2) \<Longrightarrow>
   unread b = seg1 @ (case seg2 of None \<Rightarrow> [] | Some t \<Rightarrow> t)"
  by (auto simp: PreReadAll_def unread_def rb_wf_def add.commute split: if_splits)

lemma PreReadAll_second:
  "rb_wf b \<Longrightarrow> PreReadAll b = (seg1, Some t) \<Longrightarrow> t \<noteq> [] \<and> seg1 \<noteq> []"
  by (auto simp: PreReadAll_def unread_def rb_wf_def split: if_splits)

lemma PreReadAll_first:
  "rb_wf b \<Longrightarrow> PreReadAll b = (seg1, seg2) \<Longrightarrow> 0 < Length b \<Longrightarrow> seg1 \<noteq> []"
  by (auto simp: PreReadAll_def Length_def rb_wf_def split: if_splits)

lemma Advance_unread: "rb_wf b \<Longrightarrow> unread (Advance b n) = drop (nat n) (unread b)"
proof (cases "n \<le> 0")
  case True
  then show ?thesis by (simp add: Advance_def)
next
  case False
  assume wf: "rb_wf b"
  define k where "k = min (nat n) (rb_len b)"
  define L where "L = length (rb_buf b)"
  have r: "rb_r b \<le> L" and l: "rb_len b \<le> L" using wf by (auto simp: rb_wf_def L_def)
  have kl: "k \<le> rb_len b" by (simp add: k_def)
  have "unread (Advance b n) =
        take (rb_len b - k) (drop ((rb_r b + k) mod L) (rb_buf b) @ take ((rb_r b + k) mod L) (rb_buf b))"
    using False by (simp add: Advance_def unread_def Let_def k_def L_def)
  also have "\<dots> = take (rb_len b - k) (rotate (rb_r b + k) (rb_buf b))"
    by (simp add: rotate_drop_take L_def)
  also have "\<dots> = take (rb_len b - k) (rotate k (rotate (rb_r b) (rb_buf b)))"
    by (simp add: rotate_rotate add.commute)
  also have "\<dots> = take (rb_len b - k) (drop k (rotate (rb_r b) (rb_buf b)))"
    using kl l by (intro take_rotate_drop) (simp add: L_def)
  also have "\<dots> = drop k (take (rb_len b) (rotate (rb_r b) (rb_buf b)))"
    using kl by (simp add: drop_take)
  also have "\<dots> = drop k (unread b)"
    using r unfolding unread_def L_def by (simp add: rot_eq)
  also have "\<dots> = drop (nat n) (unread b)"
    using wf by (simp add: k_def min_def length_unread Length_def)
  finally show ?thesis .
qed

lemma Advance_wf: "rb_wf b \<Longrightarrow> rb_wf (Advance b n)"
  by (cases "length (rb_buf b) = 0") (auto simp: Advance_def rb_wf_def Let_def)

lemma Advance_Length: "Length (Advance b n) = Length b - nat n"
  by (auto simp: Advance_def Length_def Let_def min_def)

lemma Write_rb_fit:
  assumes "rb_len b + length p \<le> length (rb_buf b)" and r: "rb_r b \<le> length (rb_buf b)"
  shows "Write_rb b p =
           b\<lparr>rb_buf := rotate (length (rb_buf b) - rb_r b)
                          (take (rb_len b) (rotate (rb_r b) (rb_buf b)) @ p @
                           drop (rb_len b + length p) (rotate (rb_r b) (rb_buf b))),
             rb_len := rb_len b + length p\<rparr>"
proof -
  define rot where "rot = rotate (rb_r b) (rb_buf b)"
  define rot' where "rot' = take (rb_len b) rot @ p @ drop (rb_len b + length p) rot"
  have lrot: "length rot = length (rb_buf b)" by (simp add: rot_def)
  have lrot': "length rot' = length (rb_buf b)"
    unfolding rot'_def using assms lrot by simp
  have 1: "drop (rb_r b) (rb_buf b) @ take (rb_r b) (rb_buf b) = rot"
    unfolding rot_def using r by (rule rot_eq)
  have 2: "drop (length (rb_buf b) - rb_r b) rot' @ take (length (rb_buf b) - rb_r b) rot'
           = rotate (length (rb_buf b) - rb_r b) rot'"
    by (rule rot_eq) (simp add: lrot')
  show ?thesis
    unfolding Write_rb_def Let_def 1 using assms(1)
    by (simp only: if_True rot'_def[symmetric] 2 rot_def[symmetric])
qed

lemma Write_rb_grow:
  "\<not> rb_len b + length p \<le> length (rb_buf b) \<Longrightarrow>
   Write_rb b p = \<lparr>rb_buf = unread b @ p, rb_r = 0, rb_len = rb_len b + length p\<rparr>"
  by (simp add: Write_rb_def)

lemma Write_rb_Length: "Length (Write_rb b p) = Length b + length p"
  by (simp add: Write_rb_def Length_def Let_def)

lemma Write_rb_wf: "rb_wf b \<Longrightarrow> rb_wf (Write_rb b p)"
proof (cases "rb_len b + length p \<le> length (rb_buf b)")
  case True
  assume wf: "rb_wf b"
  then have r: "rb_r b \<le> length (rb_buf b)" by (auto simp: rb_wf_def)
  show ?thesis using wf True unfolding Write_rb_fit[OF True r] rb_wf_def by simp
next
  case False
  assume wf: "rb_wf b"
  have "length (unread b) = rb_len b" using length_unread[OF wf] by (simp add: Length_def)
  then show ?thesis unfolding Write_rb_grow[OF False] rb_wf_def by simp
qed

lemma Write_rb_unread: "rb_wf b \<Longrightarrow> unread (Write_rb b p) = unread b @ p"
proof (cases "rb_len b + length p \<le> length (rb_buf b)")
  case False
  assume wf: "rb_wf b"
  have "length (unread b) = rb_len b" using length_unread[OF wf] by (simp add: Length_def)
  then have "unread \<lparr>rb_buf = unread b @ p, rb_r = 0, rb_len = rb_len b + length p\<rparr> = unread b @ p"
    by (simp add: unread_def[of "\<lparr>rb_buf = unread b @ p, rb_r = 0, rb_len = rb_len b + length p\<rparr>"])
  then show ?thesis unfolding Write_rb_grow[OF False] .
next
  case True
  assume wf: "rb_wf b"
  define L where "L = length (rb_buf b)"
  define rot where "rot = rotate (rb_r b) (rb_buf b)"
  define rot' where "rot' = take (rb_len b) rot @ p @ drop (rb_len b + length p) rot"
  have r: "rb_r b \<le> L" and l: "rb_len b \<le> L" using wf by (auto simp: rb_wf_def L_def)
  have lrot: "length rot = L" by (simp add: rot_def L_def)
  have lrot': "length rot' = L" using True lrot by (simp add: rot'_def L_def)
  have u: "unread b = take (rb_len b) rot"
    unfolding unread_def rot_def using r by (simp add: rot_eq L_def)
  have "unread (Write_rb b p) = take (rb_len b + length p) (rotate (rb_r b) (rotate (L - rb_r b) rot'))"
    unfolding Write_rb_fit[OF True r[unfolded L_def]] unread_def rot'_def rot_def L_def
    using r by (simp add: rot_eq L_def)
  also have "\<dots> = take (rb_len b + length p) rot'"
    using r lrot' by (simp add: rotate_rotate)
  also have "\<dots> = unread b @ p"
    unfolding u rot'_def using l lrot by simp
  finally show ?thesis .
qed

section \<open>What each step leaves alone\<close>

lemma unix_Read_frame:
  assumes "unix_Read E d s = ((n, err), s1)"
  shows "trace s1 = trace s @ [EvRead d]" and "store s1 = store s"
    and "connections s1 = connections s" and "wire s1 = wire s" and "next_ref s1 = next_ref s"
    and "svr s1 = svr s"
  using assms by (auto simp: unix_Read_def emit_def split: prod.splits)

lemma unix_Write_frame:
  assumes "unix_Write E d p s = ((n, err), s1)"
  shows "trace s1 = trace s @ [EvWrite d p]" and "store s1 = store s"
    and "connections s1 = connections s" and "next_ref s1 = next_ref s" and "svr s1 = svr s"
    and "packet s1 = packet s"
    and "wire s1 = (wire s)(d := wire s d @ (if err = None then take (nat n) p else []))"
    and "(n, err) = Write_res E (trace s) d p"
  using assms by (auto simp: unix_Write_def emit_def split: prod.splits)

lemma loopCloseConn_frame:
  assumes "loopCloseConn E c err s = (r, s')"
  shows "store s' = store s" and "next_ref s' = next_ref s" and "wire s' = wire s"
    and "svr s' = svr s" and "packet s' = packet s"
    and "trace s' = trace s @ [EvDelete (fd (store s c))] @
           (if Delete_res E (trace s) (fd (store s c)) = None then [EvCloseFd (fd (store s c))] else []) @
           [EvOnClosed c err]"
    and "connections s' = (if Delete_res E (trace s) (fd (store s c)) = None
                           then (connections s)(fd (store s c) := None) else connections s)"
  using assms by (auto simp: loopCloseConn_def Let_def emit_def split: Action.splits if_splits)

lemma conn_write_frame:
  assumes "conn_write E c buf s = s'"
  shows "trace s' = trace s @ [EvWrite (fd (store s c)) buf]"
    and "connections s' = connections s" and "next_ref s' = next_ref s" and "svr s' = svr s"
    and "packet s' = packet s"
    and "\<And>k. k \<noteq> c \<Longrightarrow> store s' k = store s k"
    and "\<exists>ob. store s' c = (store s c)\<lparr>outBuf := ob\<rparr>"
  using assms
  by (auto simp: conn_write_def unix_Write_def Let_def emit_def split: prod.splits if_splits
           intro: exI[of _ "outBuf (store s c)"])

lemma handleAction_frame:
  assumes "handleAction E c s = (r, s')"
  shows "store s' = store s" and "next_ref s' = next_ref s"
    and "action (store s c) \<noteq> Close \<Longrightarrow> s' = s"
    and "action (store s c) = Close \<Longrightarrow> (r, s') = loopCloseConn E c None s"
  using assms loopCloseConn_frame(1,2)[of E c None s r s']
  by (auto simp: handleAction_def split: Action.splits)

lemma loopRead_success:
  assumes R: "unix_Read E (fd (store s c)) s = ((n, None), s1)"
    and n: "0 < n" "n \<le> int (length (packet s1))"
    and A: "React E (trace s1) ((store s1 c)\<lparr>extra := take (nat n) (packet s1)\<rparr>) = (out, a)"
  shows "loopRead E c s =
           handleAction E c
             (let s4 = upd_conn c (\<lambda>k. k\<lparr>action := a\<rparr>)
                         (emit (EvReact c)
                            (upd_conn c (\<lambda>k. k\<lparr>extra := take (nat n) (packet s1)\<rparr>) s1))
              in if out \<noteq> [] then conn_write E c out s4
                 else if a \<noteq> DataRead
                   then upd_conn c (\<lambda>k. k\<lparr>inBuf := Write_rb (inBuf k) (extra k)\<rparr>) s4
                 else s4)"
proof -
  have sl: "slice_to (packet s1) n = Some (take (nat n) (packet s1))"
    using n by (simp add: slice_to_def)
  have A': "React E (trace (upd_conn c (\<lambda>k. k\<lparr>extra := take (nat n) (packet s1)\<rparr>) s1))
              (store (upd_conn c (\<lambda>k. k\<lparr>extra := take (nat n) (packet s1)\<rparr>) s1) c) = (out, a)"
    using A by (simp add: upd_conn_def)
  show ?thesis
    unfolding loopRead_def R using n(1) by (simp add: sl Let_def A')
qed


section \<open>The dispatch\<close>

text \<open>
  Claim C2. The dispatch classifies a readiness event by its descriptor: descriptor 0 runs
  the injected job and returns what the job returns; a descriptor of the connection table
  runs \<open>loopOpened\<close> when the connection is not opened yet, \<open>loopWrite\<close> when its outbound
  buffer has a length greater than zero, and \<open>loopRead\<close> otherwise; any other descriptor
  runs \<open>loopAccept\<close>.
\<close>

theorem dispatch_classifies:
  "(d = 0 \<longrightarrow> dispatch E d job s = job s) \<and>
   (d \<noteq> 0 \<and> connections s d = Some c \<and> \<not> opened (store s c) \<longrightarrow>
      dispatch E d job s = loopOpened E c s) \<and>
   (d \<noteq> 0 \<and> connections s d = Some c \<and> opened (store s c) \<and> Length (outBuf (store s c)) > 0 \<longrightarrow>
      dispatch E d job s = loopWrite E c s) \<and>
   (d \<noteq> 0 \<and> connections s d = Some c \<and> opened (store s c) \<and> \<not> Length (outBuf (store s c)) > 0 \<longrightarrow>
      dispatch E d job s = loopRead E c s) \<and>
   (d \<noteq> 0 \<and> connections s d = None \<longrightarrow> dispatch E d job s = loopAccept E d s)"
  by (simp add: dispatch_def)

theorem dispatch_classifies_witness:
  "dispatch env0 0 job_nil loop1 = (Ret_nil, loop1) \<and>
   dispatch env0 7 job_nil (upd_conn 0 (\<lambda>k. k\<lparr>opened := False\<rparr>) loop1)
     = loopOpened env0 0 (upd_conn 0 (\<lambda>k. k\<lparr>opened := False\<rparr>) loop1) \<and>
   dispatch env0 7 job_nil loop_out = loopWrite env0 0 loop_out \<and>
   dispatch env0 7 job_nil loop1 = loopRead env0 0 loop1 \<and>
   dispatch env0 3 job_nil loop0 = loopAccept env0 3 loop0"
  using dispatch_classifies [of 0 env0 job_nil loop1]
    dispatch_classifies [of 7 env0 job_nil "upd_conn 0 (\<lambda>k. k\<lparr>opened := False\<rparr>) loop1" 0]
    dispatch_classifies [of 7 env0 job_nil loop_out 0]
    dispatch_classifies [of 7 env0 job_nil loop1 0]
    dispatch_classifies [of 3 env0 job_nil loop0]
  by (simp add: job_nil_def upd_conn_def loop1_def loop0_def loop_out_def conn0_def
        rb_wrapped_def Length_def New_def)

text \<open>
  Claim C10. A descriptor that is not 0, is no key of the connection table and is not the
  listening descriptor leaves the dispatch with \<^verbatim>\<open>nil\<close> and the same loop: the table, the
  store and the trace are unchanged, so no connection was created and no call to the
  Poller, the operating system or the handler was made.
\<close>

theorem dispatch_ignores_unknown_fd:
  assumes "d \<noteq> 0" and "connections s d = None" and "d \<noteq> ln_fd (svr s)"
  shows "dispatch E d job s = (Ret_nil, s)"
  using assms by (simp add: dispatch_def loopAccept_def)

theorem dispatch_ignores_unknown_fd_witness:
  "dispatch env0 9 job_nil loop1 = (Ret_nil, loop1)"
proof -
  have 1: "(9::int) \<noteq> 0" by simp
  have 2: "connections loop1 9 = None" by (simp add: loop1_def loop0_def)
  have 3: "9 \<noteq> ln_fd (svr loop1)" by (simp add: loop1_def loop0_def)
  show ?thesis by (rule dispatch_ignores_unknown_fd [OF 1 2 3])
qed

section \<open>Closing a connection and applying an action\<close>

text \<open>
  Claim C6. \<open>loopCloseConn\<close> on a connection of the table removes it from the table and
  closes its descriptor exactly when the Poller's \<^verbatim>\<open>Delete\<close> succeeded; when \<^verbatim>\<open>Delete\<close> failed
  the table is unchanged and the descriptor is not closed. In both cases the close
  callback is called with the error that was passed in, and the result is \<^verbatim>\<open>ErrClosing\<close>
  exactly when the callback returned \<^verbatim>\<open>Shutdown\<close>, and \<^verbatim>\<open>nil\<close> otherwise.
\<close>

theorem loopCloseConn_deregisters:
  assumes "connections s (fd (store s c)) = Some c"
  shows "let d = fd (store s c);
             ok = (Delete_res E (trace s) d = None);
             called = trace s @ [EvDelete d] @ (if ok then [EvCloseFd d] else []);
             (r, s') = loopCloseConn E c err s
         in (connections s' d = None \<longleftrightarrow> ok) \<and>
            (EvCloseFd d \<in> set (new_events s s') \<longleftrightarrow> ok) \<and>
            connections s' = (if ok then (connections s)(d := None) else connections s) \<and>
            trace s' = called @ [EvOnClosed c err] \<and>
            (r = Ret_err ErrClosing \<longleftrightarrow> OnClosed E called (store s c) err = Shutdown) \<and>
            (r = Ret_nil \<longleftrightarrow> OnClosed E called (store s c) err \<noteq> Shutdown) \<and>
            store s' = store s"
  using assms
  by (auto simp: loopCloseConn_def Let_def emit_def new_events_def split: Action.splits)

theorem loopCloseConn_deregisters_witness:
  "connections (snd (loopCloseConn env0 0 (Some (Errno 104)) loop1)) 7 = None \<and>
   trace (snd (loopCloseConn env0 0 (Some (Errno 104)) loop1))
     = [EvDelete 7, EvCloseFd 7, EvOnClosed 0 (Some (Errno 104))] \<and>
   fst (loopCloseConn env0 0 (Some (Errno 104)) loop1) = Ret_nil \<and>
   connections (snd (loopCloseConn
      (env0\<lparr>Delete_res := (\<lambda>t d. Some (Errno 9)), OnClosed := (\<lambda>t k e. Shutdown)\<rparr>) 0 None loop1)) 7
     = Some 0 \<and>
   trace (snd (loopCloseConn
      (env0\<lparr>Delete_res := (\<lambda>t d. Some (Errno 9)), OnClosed := (\<lambda>t k e. Shutdown)\<rparr>) 0 None loop1))
     = [EvDelete 7, EvOnClosed 0 None] \<and>
   fst (loopCloseConn
      (env0\<lparr>Delete_res := (\<lambda>t d. Some (Errno 9)), OnClosed := (\<lambda>t k e. Shutdown)\<rparr>) 0 None loop1)
     = Ret_err ErrClosing"
proof -
  have h: "connections loop1 (fd (store loop1 0)) = Some 0"
    by (simp add: loop1_def loop0_def conn0_def)
  show ?thesis
    using loopCloseConn_deregisters [OF h, of env0 "Some (Errno 104)"]
      loopCloseConn_deregisters [OF h,
        of "env0\<lparr>Delete_res := (\<lambda>t d. Some (Errno 9)), OnClosed := (\<lambda>t k e. Shutdown)\<rparr>" None]
    by (simp add: loop1_def loop0_def conn0_def env0_def Let_def split: prod.splits)
qed

text \<open>
  Claim C7. \<open>handleAction\<close> looks at the connection's pending action: for \<^verbatim>\<open>None\<close> it returns
  \<^verbatim>\<open>nil\<close> and changes nothing, for \<^verbatim>\<open>Close\<close> it is \<open>loopCloseConn\<close> with a \<^verbatim>\<open>nil\<close> error, for
  \<^verbatim>\<open>Shutdown\<close> it returns \<^verbatim>\<open>ErrClosing\<close>, and for every other value, the sentinel \<^verbatim>\<open>DataRead\<close>
  among them, it returns \<^verbatim>\<open>nil\<close> and changes nothing, as for \<^verbatim>\<open>None\<close>.
\<close>

theorem handleAction_by_action:
  "(action (store s c) = None_act \<longrightarrow> handleAction E c s = (Ret_nil, s)) \<and>
   (action (store s c) = Close \<longrightarrow> handleAction E c s = loopCloseConn E c None s) \<and>
   (action (store s c) = Shutdown \<longrightarrow> handleAction E c s = (Ret_err ErrClosing, s)) \<and>
   (action (store s c) = DataRead \<longrightarrow> handleAction E c s = (Ret_nil, s)) \<and>
   (action (store s c) = Other_act k \<longrightarrow> handleAction E c s = (Ret_nil, s))"
  by (simp add: handleAction_def)

theorem handleAction_by_action_witness:
  "handleAction env0 0 loop1 = (Ret_nil, loop1) \<and>
   handleAction env0 0 (upd_conn 0 (\<lambda>k. k\<lparr>action := DataRead\<rparr>) loop1)
     = (Ret_nil, upd_conn 0 (\<lambda>k. k\<lparr>action := DataRead\<rparr>) loop1) \<and>
   handleAction env0 0 (upd_conn 0 (\<lambda>k. k\<lparr>action := Other_act 9\<rparr>) loop1)
     = (Ret_nil, upd_conn 0 (\<lambda>k. k\<lparr>action := Other_act 9\<rparr>) loop1) \<and>
   handleAction env0 0 (upd_conn 0 (\<lambda>k. k\<lparr>action := Shutdown\<rparr>) loop1)
     = (Ret_err ErrClosing, upd_conn 0 (\<lambda>k. k\<lparr>action := Shutdown\<rparr>) loop1) \<and>
   handleAction env0 0 (upd_conn 0 (\<lambda>k. k\<lparr>action := Close\<rparr>) loop1)
     = loopCloseConn env0 0 None (upd_conn 0 (\<lambda>k. k\<lparr>action := Close\<rparr>) loop1) \<and>
   connections (snd (handleAction env0 0 (upd_conn 0 (\<lambda>k. k\<lparr>action := Close\<rparr>) loop1))) 7 = None"
  using handleAction_by_action [of loop1 0 env0]
    handleAction_by_action [of "upd_conn 0 (\<lambda>k. k\<lparr>action := DataRead\<rparr>) loop1" 0 env0]
    handleAction_by_action [of "upd_conn 0 (\<lambda>k. k\<lparr>action := Other_act 9\<rparr>) loop1" 0 env0 9]
    handleAction_by_action [of "upd_conn 0 (\<lambda>k. k\<lparr>action := Shutdown\<rparr>) loop1" 0 env0]
    handleAction_by_action [of "upd_conn 0 (\<lambda>k. k\<lparr>action := Close\<rparr>) loop1" 0 env0]
  by (simp add: upd_conn_def loop1_def loop0_def conn0_def loopCloseConn_def env0_def emit_def)

section \<open>Reading\<close>



text \<open>
  Claim C3. In \<open>loopRead\<close>, after a read of \<open>n > 0\<close> bytes, the bytes read are appended to the
  connection's input buffer exactly when the data callback returned no output and an action
  other than \<^verbatim>\<open>DataRead\<close>; in every other case \<open>loopRead\<close> leaves the input buffer as it was.
\<close>

theorem loopRead_buffers_input:
  assumes R: "unix_Read E (fd (store s c)) s = ((n, None), s1)"
    and n: "0 < n" "n \<le> int (length (packet s1))"
    and A: "React E (trace s1) ((store s1 c)\<lparr>extra := take (nat n) (packet s1)\<rparr>) = (out, a)"
    and wf: "rb_wf (inBuf (store s c))"
    and L: "loopRead E c s = (r, s')"
  shows "inBuf (store s' c) =
           (if out = [] \<and> a \<noteq> DataRead
            then Write_rb (inBuf (store s c)) (take (nat n) (packet s1))
            else inBuf (store s c)) \<and>
         (unread (inBuf (store s' c)) = unread (inBuf (store s c)) @ take (nat n) (packet s1)
            \<longleftrightarrow> out = [] \<and> a \<noteq> DataRead)"
proof -
  define bs where "bs = take (nat n) (packet s1)"
  define s4 where "s4 = upd_conn c (\<lambda>k. k\<lparr>action := a\<rparr>)
                         (emit (EvReact c) (upd_conn c (\<lambda>k. k\<lparr>extra := bs\<rparr>) s1))"
  define s5 where "s5 = (if out \<noteq> [] then conn_write E c out s4
                 else if a \<noteq> DataRead
                   then upd_conn c (\<lambda>k. k\<lparr>inBuf := Write_rb (inBuf k) (extra k)\<rparr>) s4
                 else s4)"
  have H: "handleAction E c s5 = (r, s')"
    using loopRead_success[OF R n A] L by (simp add: s5_def s4_def bs_def Let_def)
  have st: "store s' = store s5" by (rule handleAction_frame(1)[OF H])
  have i4: "inBuf (store s4 c) = inBuf (store s c)" and e4: "extra (store s4 c) = bs"
    using unix_Read_frame(2)[OF R] by (simp_all add: s4_def upd_conn_def emit_def)
  have cw: "inBuf (store (conn_write E c out s4) c) = inBuf (store s4 c)"
    using conn_write_frame(7)[OF refl, of E c out s4] by auto
  have 1: "inBuf (store s' c) =
           (if out = [] \<and> a \<noteq> DataRead then Write_rb (inBuf (store s c)) bs
            else inBuf (store s c))"
    unfolding st s5_def using i4 e4 cw by (simp add: upd_conn_def)
  have ne: "bs \<noteq> []" using n by (auto simp: bs_def)
  have 2: "unread (inBuf (store s' c)) = unread (inBuf (store s c)) @ bs \<longleftrightarrow> out = [] \<and> a \<noteq> DataRead"
    unfolding 1 using ne by (simp add: Write_rb_unread[OF wf])
  show ?thesis using 1 2 by (simp add: bs_def)
qed

theorem loopRead_buffers_input_witness:
  "unread (inBuf (store (snd (loopRead env0 0 loop1)) 0)) = [1, 2, 3] \<and>
   inBuf (store (snd (loopRead (env0\<lparr>React := (\<lambda>t k. ([], DataRead))\<rparr>) 0 loop1)) 0) = New 8 \<and>
   inBuf (store (snd (loopRead (env0\<lparr>React := (\<lambda>t k. ([5], None_act))\<rparr>) 0 loop1)) 0) = New 8"
proof -
  let ?s1 = "emit (EvRead 7) (loop1\<lparr>packet := [1, 2, 3, 0]\<rparr>)"
  have R: "unix_Read E (fd (store loop1 0)) loop1 = ((3, None), ?s1)"
    if "Read_res E = Read_res env0" for E
    using that by (simp add: unix_Read_def loop1_def loop0_def conn0_def emit_def env0_def)
  have n: "(0::int) < 3" "3 \<le> int (length (packet ?s1))" by (simp_all add: emit_def)
  have wf: "rb_wf (inBuf (store loop1 0))"
    by (simp add: loop1_def loop0_def conn0_def New_wf)
  have L: "loopRead E 0 loop1 = (fst (loopRead E 0 loop1), snd (loopRead E 0 loop1))" for E
    by simp
  have A0: "React env0 (trace ?s1) ((store ?s1 0)\<lparr>extra := take (nat 3) (packet ?s1)\<rparr>)
              = ([], None_act)"
    by (simp add: env0_def)
  have A1: "React (env0\<lparr>React := (\<lambda>t k. ([], DataRead))\<rparr>) (trace ?s1)
              ((store ?s1 0)\<lparr>extra := take (nat 3) (packet ?s1)\<rparr>) = ([], DataRead)"
    by simp
  have A2: "React (env0\<lparr>React := (\<lambda>t k. ([5], None_act))\<rparr>) (trace ?s1)
              ((store ?s1 0)\<lparr>extra := take (nat 3) (packet ?s1)\<rparr>) = ([5], None_act)"
    by simp
  have ib: "inBuf (store loop1 0) = New 8"
    by (simp add: loop1_def loop0_def conn0_def)
  have pk: "take (nat 3) (packet ?s1) = [1, 2, 3]"
    by (simp add: emit_def)
  have 0: "unread (inBuf (store (snd (loopRead env0 0 loop1)) 0)) = [1, 2, 3]"
    using loopRead_buffers_input [OF R n A0 wf L] unfolding ib pk
    by (simp add: New_unread Write_rb_unread New_wf)
  have 1: "inBuf (store (snd (loopRead (env0\<lparr>React := (\<lambda>t k. ([], DataRead))\<rparr>) 0 loop1)) 0) = New 8"
    using loopRead_buffers_input [OF R n A1 wf L] unfolding ib pk by simp
  have 2: "inBuf (store (snd (loopRead (env0\<lparr>React := (\<lambda>t k. ([5], None_act))\<rparr>) 0 loop1)) 0) = New 8"
    using loopRead_buffers_input [OF R n A2 wf L] unfolding ib pk by simp
  show ?thesis using 0 1 2 by blast
qed

section \<open>Writing\<close>

lemma loopWrite_end_frame:
  assumes "loopWrite_end c s = (r, s')"
  shows "r = Ret_nil" and "store s' = store s" and "wire s' = wire s"
    and "connections s' = connections s" and "next_ref s' = next_ref s"
    and "trace s' = trace s @ (if Length (outBuf (store s c)) = 0 then [EvModRead (fd (store s c))] else [])"
  using assms by (auto simp: loopWrite_end_def emit_def split: if_splits)

lemma loopWrite_paths [consumes 1, case_names block1 fatal1 one block2 fatal2 two]:
  assumes P: "PreReadAll (outBuf (store s c)) = (seg1, seg2)"
  obtains
    (block1) n s1 where
      "unix_Write E (fd (store s c)) seg1 (emit EvPreWrite s) = ((n, Some EAGAIN), s1)"
      "loopWrite E c s = (Ret_nil, s1)"
  | (fatal1) n e s1 where
      "unix_Write E (fd (store s c)) seg1 (emit EvPreWrite s) = ((n, Some e), s1)"
      "e \<noteq> EAGAIN" "loopWrite E c s = loopCloseConn E c (Some e) s1"
  | (one) n s1 where
      "unix_Write E (fd (store s c)) seg1 (emit EvPreWrite s) = ((n, None), s1)"
      "seg2 = None \<or> int (length seg1) \<noteq> n"
      "loopWrite E c s = loopWrite_end c (adv c n s1)"
  | (block2) s1 seg n' s3 where
      "unix_Write E (fd (store s c)) seg1 (emit EvPreWrite s) = ((int (length seg1), None), s1)"
      "seg2 = Some seg"
      "unix_Write E (fd (store s c)) seg (adv c (int (length seg1)) s1) = ((n', Some EAGAIN), s3)"
      "loopWrite E c s = (Ret_nil, s3)"
  | (fatal2) s1 seg n' e s3 where
      "unix_Write E (fd (store s c)) seg1 (emit EvPreWrite s) = ((int (length seg1), None), s1)"
      "seg2 = Some seg"
      "unix_Write E (fd (store s c)) seg (adv c (int (length seg1)) s1) = ((n', Some e), s3)"
      "e \<noteq> EAGAIN" "loopWrite E c s = loopCloseConn E c (Some e) s3"
  | (two) s1 seg n' s3 where
      "unix_Write E (fd (store s c)) seg1 (emit EvPreWrite s) = ((int (length seg1), None), s1)"
      "seg2 = Some seg"
      "unix_Write E (fd (store s c)) seg (adv c (int (length seg1)) s1) = ((n', None), s3)"
      "loopWrite E c s = loopWrite_end c (adv c n' s3)"
proof -
  obtain n err s1 where
    W: "unix_Write E (fd (store s c)) seg1 (emit EvPreWrite s) = ((n, err), s1)"
    by (metis prod.exhaust)
  have P': "PreReadAll (outBuf (store (emit EvPreWrite s) c)) = (seg1, seg2)"
    and f0: "fd (store (emit EvPreWrite s) c) = fd (store s c)"
    using P by (simp_all add: emit_def)
  have f1: "store s1 = store s"
    using unix_Write_frame(2)[OF W] by (simp add: emit_def)
  have f2: "fd (store (adv c m s1) c) = fd (store s c)" for m
    by (simp add: adv_def upd_conn_def f1)
  have L: "loopWrite E c s =
     (if err \<noteq> None
         then (if err = Some EAGAIN then (Ret_nil, s1) else loopCloseConn E c err s1)
         else
           (case seg2 of
                 Some seg \<Rightarrow>
                   if int (length seg1) = n
                   then let ((n', err'), s3) = unix_Write E (fd (store s c)) seg (adv c n s1)
                        in if err' \<noteq> None
                           then (if err' = Some EAGAIN then (Ret_nil, s3)
                                 else loopCloseConn E c err' s3)
                           else loopWrite_end c (adv c n' s3)
                   else loopWrite_end c (adv c n s1)
               | None \<Rightarrow> loopWrite_end c (adv c n s1)))"
    unfolding loopWrite_def Let_def P' f0 W prod.case adv_def[symmetric] f2 ..
  show thesis
  proof (cases err)
    case (Some e)
    show thesis
    proof (cases "e = EAGAIN")
      case True
      show thesis using block1[of n s1] W L Some True by simp
    next
      case False
      show thesis using fatal1[of n e s1] W L Some False by simp
    qed
  next
    case None
    show thesis
    proof (cases "seg2 = None \<or> int (length seg1) \<noteq> n")
      case True
      have "loopWrite E c s = loopWrite_end c (adv c n s1)"
        using L None True by (auto split: option.splits)
      then show thesis using one[of n s1] W None True by simp
    next
      case False
      then obtain seg where sg: "seg2 = Some seg" and nn: "n = int (length seg1)" by auto
      obtain n' err' s3 where
        W2: "unix_Write E (fd (store s c)) seg (adv c (int (length seg1)) s1) = ((n', err'), s3)"
        by (metis prod.exhaust)
      have L2: "loopWrite E c s =
                  (if err' \<noteq> None
                   then (if err' = Some EAGAIN then (Ret_nil, s3) else loopCloseConn E c err' s3)
                   else loopWrite_end c (adv c n' s3))"
        using L None sg nn W2 by simp
      show thesis
      proof (cases err')
        case None': None
        show thesis using two[of s1 seg n' s3] W W2 L2 None None' sg nn by simp
      next
        case (Some e)
        show thesis
        proof (cases "e = EAGAIN")
          case True
          show thesis using block2[of s1 seg n' s3] W W2 L2 None Some True sg nn by simp
        next
          case False
          show thesis using fatal2[of s1 seg n' e s3] W W2 L2 None Some False sg nn by simp
        qed
      qed
    qed
  qed
qed


lemma adv_frame:
  "store (adv c n s) = (store s)(c := (store s c)\<lparr>outBuf := Advance (outBuf (store s c)) n\<rparr>)"
  "wire (adv c n s) = wire s" "trace (adv c n s) = trace s"
  "connections (adv c n s) = connections s" "next_ref (adv c n s) = next_ref s"
  by (simp_all add: adv_def upd_conn_def)

lemma write_in_rangeD:
  assumes "write_in_range E" and "unix_Write E d p s = ((n, None), s1)"
  shows "0 \<le> n" and "n \<le> int (length p)"
  using assms(1) unix_Write_frame(8)[OF assms(2)]
  unfolding write_in_range_def by (metis fst_conv snd_conv)+

lemma write_never_fatalD:
  assumes "write_never_fatal E" and "unix_Write E d p s = ((n, Some e), s1)"
  shows "e = EAGAIN"
  using assms(1) unix_Write_frame(8)[OF assms(2)]
  unfolding write_never_fatal_def by (metis option.distinct(1) option.inject snd_conv)

lemma loopWrite_stream:
  assumes wf: "rb_wf (outBuf (store s c))"
    and rng: "write_in_range E" and nf: "write_never_fatal E"
    and L: "loopWrite E c s = (r, s')"
  shows "r = Ret_nil \<and> stream c s' = stream c s \<and> rb_wf (outBuf (store s' c)) \<and>
         fd (store s' c) = fd (store s c)"
proof -
  obtain seg1 seg2 where P: "PreReadAll (outBuf (store s c)) = (seg1, seg2)"
    by (metis prod.exhaust)
  note U = PreReadAll_unread[OF wf P]
  let ?d = "fd (store s c)"
  from P show ?thesis
  proof (cases rule: loopWrite_paths[where E = E])
    case (block1 n s1)
    have "s' = s1" "r = Ret_nil" using block1(2) L by simp_all
    then show ?thesis
      using unix_Write_frame(2,7)[OF block1(1)] wf by (simp add: stream_def emit_def)
  next
    case (fatal1 n e s1)
    then show ?thesis using write_never_fatalD[OF nf fatal1(1)] by simp
  next
    case (one n s1)
    have E: "loopWrite_end c (adv c n s1) = (r, s')" using one(3) L by simp
    have n: "0 \<le> n" "n \<le> int (length seg1)" using write_in_rangeD[OF rng one(1)] by simp_all
    have u: "take (nat n) seg1 @ drop (nat n) (unread (outBuf (store s c))) = unread (outBuf (store s c))"
      using n unfolding U by simp
    show ?thesis
      using loopWrite_end_frame(1,2,3)[OF E] unix_Write_frame(2,7)[OF one(1)] wf u
      by (simp add: stream_def emit_def adv_frame Advance_unread Advance_wf)
  next
    case (block2 s1 seg n' s3)
    have "s' = s3" "r = Ret_nil" using block2(4) L by simp_all
    moreover have "drop (length seg1) (unread (outBuf (store s c))) = seg"
      unfolding U by (simp add: block2(2))
    ultimately show ?thesis
      using unix_Write_frame(2,7)[OF block2(1)] unix_Write_frame(2,7)[OF block2(3)] wf U block2(2)
      by (simp add: stream_def emit_def adv_frame Advance_unread Advance_wf)
  next
    case (fatal2 s1 seg n' e s3)
    then show ?thesis using write_never_fatalD[OF nf fatal2(3)] by simp
  next
    case (two s1 seg n' s3)
    have E: "loopWrite_end c (adv c n' s3) = (r, s')" using two(4) L by simp
    have n: "0 \<le> n'" "n' \<le> int (length seg)" using write_in_rangeD[OF rng two(3)] by simp_all
    have u: "drop (length seg1) (unread (outBuf (store s c))) = seg"
      unfolding U by (simp add: two(2))
    show ?thesis
      using loopWrite_end_frame(1,2,3)[OF E] unix_Write_frame(2,7)[OF two(1)]
        unix_Write_frame(2,7)[OF two(3)] wf U two(2) n u
      by (simp add: stream_def emit_def adv_frame Advance_unread Advance_wf)
  qed
qed

lemma loopWrite_times_stream:
  assumes rng: "write_in_range E" and nf: "write_never_fatal E"
  shows "rb_wf (outBuf (store s c)) \<Longrightarrow>
         fst (loopWrite_times E c k s) = Ret_nil \<and>
         stream c (snd (loopWrite_times E c k s)) = stream c s \<and>
         fd (store (snd (loopWrite_times E c k s)) c) = fd (store s c)"
proof (induction k arbitrary: s)
  case 0
  show ?case by simp
next
  case (Suc k)
  obtain r s' where L: "loopWrite E c s = (r, s')" by (metis prod.exhaust)
  note S = loopWrite_stream[OF Suc.prems rng nf L]
  show ?case using Suc.IH[of s'] S by (simp add: L)
qed


lemma writes_of_append: "writes_of (xs @ ys) = writes_of xs @ writes_of ys"
  by (induction xs rule: writes_of.induct) simp_all

lemma new_events_append: "trace s' = trace s @ es \<Longrightarrow> new_events s s' = es"
  by (simp add: new_events_def)

lemma loopWrite_structure:
  assumes P: "PreReadAll (outBuf (store s c)) = (seg1, seg2)"
    and W: "Write_res E (trace s @ [EvPreWrite]) (fd (store s c)) seg1 = (n, err)"
    and L: "loopWrite E c s = (r, s')"
  shows "writes_of (new_events s s') =
           (fd (store s c), seg1) #
           (if err = None \<and> int (length seg1) = n
            then (case seg2 of Some seg \<Rightarrow> [(fd (store s c), seg)] | None \<Rightarrow> [])
            else [])"
    and "err = Some EAGAIN \<longrightarrow>
           r = Ret_nil \<and> outBuf (store s' c) = outBuf (store s c) \<and> wire s' = wire s"
    and "err = None \<and> (int (length seg1) \<noteq> n \<or> seg2 = None) \<longrightarrow>
           r = Ret_nil \<and> outBuf (store s' c) = Advance (outBuf (store s c)) n"
    and "err = None \<and> int (length seg1) = n \<and> seg2 = Some seg \<longrightarrow>
           outBuf (store s' c) =
             (case Write_res E (trace s @ [EvPreWrite, EvWrite (fd (store s c)) seg1])
                     (fd (store s c)) seg of
                (n2, err2) \<Rightarrow>
                  if err2 = None then Advance (Advance (outBuf (store s c)) n) n2
                  else Advance (outBuf (store s c)) n) \<and>
           (snd (Write_res E (trace s @ [EvPreWrite, EvWrite (fd (store s c)) seg1])
                     (fd (store s c)) seg) = Some EAGAIN \<longrightarrow> r = Ret_nil)"
proof -
  let ?d = "fd (store s c)"
  have t0: "trace (emit EvPreWrite s) = trace s @ [EvPreWrite]" by (simp add: emit_def)
  from P have
    "writes_of (new_events s s') =
           (?d, seg1) #
           (if err = None \<and> int (length seg1) = n
            then (case seg2 of Some seg \<Rightarrow> [(?d, seg)] | None \<Rightarrow> [])
            else []) \<and>
     (err = Some EAGAIN \<longrightarrow>
           r = Ret_nil \<and> outBuf (store s' c) = outBuf (store s c) \<and> wire s' = wire s) \<and>
     (err = None \<and> (int (length seg1) \<noteq> n \<or> seg2 = None) \<longrightarrow>
           r = Ret_nil \<and> outBuf (store s' c) = Advance (outBuf (store s c)) n) \<and>
     (err = None \<and> int (length seg1) = n \<and> seg2 = Some seg \<longrightarrow>
           outBuf (store s' c) =
             (case Write_res E (trace s @ [EvPreWrite, EvWrite ?d seg1]) ?d seg of
                (n2, err2) \<Rightarrow>
                  if err2 = None then Advance (Advance (outBuf (store s c)) n) n2
                  else Advance (outBuf (store s c)) n) \<and>
           (snd (Write_res E (trace s @ [EvPreWrite, EvWrite ?d seg1]) ?d seg) = Some EAGAIN
              \<longrightarrow> r = Ret_nil))"
  proof (cases rule: loopWrite_paths[where E = E])
    case (block1 m s1)
    have s: "s' = s1" "r = Ret_nil" using block1(2) L by simp_all
    have e: "err = Some EAGAIN" "m = n"
      using unix_Write_frame(8)[OF block1(1)] W by (simp_all add: t0)
    have tr: "trace s' = trace s @ [EvPreWrite, EvWrite ?d seg1]"
      using unix_Write_frame(1)[OF block1(1)] by (simp add: s t0)
    show ?thesis
      unfolding new_events_append[OF tr]
      using unix_Write_frame(2,7)[OF block1(1)] e s by (simp add: emit_def)
  next
    case (fatal1 m e s1)
    have e: "err = Some e" "m = n"
      using unix_Write_frame(8)[OF fatal1(1)] W by (simp_all add: t0)
    have C: "loopCloseConn E c (Some e) s1 = (r, s')" using fatal1(3) L by simp
    have tr: "trace s' = trace s @ [EvPreWrite, EvWrite ?d seg1] @
                ([EvDelete (fd (store s1 c))] @
                 (if Delete_res E (trace s1) (fd (store s1 c)) = None
                  then [EvCloseFd (fd (store s1 c))] else []) @ [EvOnClosed c (Some e)])"
      using unix_Write_frame(1)[OF fatal1(1)] loopCloseConn_frame(6)[OF C] by (simp add: t0)
    show ?thesis
      unfolding new_events_append[OF tr] using e fatal1(2) by (simp add: writes_of_append)
  next
    case (one m s1)
    have e: "err = None" "m = n"
      using unix_Write_frame(8)[OF one(1)] W by (simp_all add: t0)
    have E: "loopWrite_end c (adv c n s1) = (r, s')" using one(3) L e by simp
    have tr: "trace s' = trace s @ [EvPreWrite, EvWrite ?d seg1] @
                (if Length (outBuf (store (adv c n s1) c)) = 0
                 then [EvModRead (fd (store (adv c n s1) c))] else [])"
      using unix_Write_frame(1)[OF one(1)] loopWrite_end_frame(6)[OF E]
      by (simp add: t0 adv_frame)
    have st: "outBuf (store s' c) = Advance (outBuf (store s c)) n"
      using loopWrite_end_frame(2)[OF E] unix_Write_frame(2)[OF one(1)]
      by (simp add: adv_frame emit_def)
    show ?thesis
      unfolding new_events_append[OF tr]
      using e one(2) st loopWrite_end_frame(1)[OF E] by (auto simp: writes_of_append)
  next
    case (block2 s1 sg n' s3)
    have e: "err = None" "n = int (length seg1)"
      using unix_Write_frame(8)[OF block2(1)] W by (simp_all add: t0)
    have s: "s' = s3" "r = Ret_nil" using block2(4) L by simp_all
    have t1: "trace s1 = trace s @ [EvPreWrite, EvWrite ?d seg1]"
      using unix_Write_frame(1)[OF block2(1)] by (simp add: t0)
    have w2: "Write_res E (trace s @ [EvPreWrite, EvWrite ?d seg1]) ?d sg = (n', Some EAGAIN)"
      using unix_Write_frame(8)[OF block2(3)] by (simp add: adv_frame t1)
    have tr: "trace s' = trace s @ [EvPreWrite, EvWrite ?d seg1, EvWrite ?d sg]"
      using unix_Write_frame(1)[OF block2(3)] by (simp add: s adv_frame t1)
    have st: "outBuf (store s' c) = Advance (outBuf (store s c)) n"
      using unix_Write_frame(2)[OF block2(3)] unix_Write_frame(2)[OF block2(1)]
      by (simp add: s adv_frame emit_def e)
    show ?thesis
      unfolding new_events_append[OF tr] using e block2(2) st s w2 by auto
  next
    case (fatal2 s1 sg n' e' s3)
    have e: "err = None" "n = int (length seg1)"
      using unix_Write_frame(8)[OF fatal2(1)] W by (simp_all add: t0)
    have C: "loopCloseConn E c (Some e') s3 = (r, s')" using fatal2(5) L by simp
    have t1: "trace s1 = trace s @ [EvPreWrite, EvWrite ?d seg1]"
      using unix_Write_frame(1)[OF fatal2(1)] by (simp add: t0)
    have w2: "Write_res E (trace s @ [EvPreWrite, EvWrite ?d seg1]) ?d sg = (n', Some e')"
      using unix_Write_frame(8)[OF fatal2(3)] by (simp add: adv_frame t1)
    have tr: "trace s' = trace s @ [EvPreWrite, EvWrite ?d seg1, EvWrite ?d sg] @
                ([EvDelete (fd (store s3 c))] @
                 (if Delete_res E (trace s3) (fd (store s3 c)) = None
                  then [EvCloseFd (fd (store s3 c))] else []) @ [EvOnClosed c (Some e')])"
      using unix_Write_frame(1)[OF fatal2(3)] loopCloseConn_frame(6)[OF C]
      by (simp add: adv_frame t1)
    have st: "outBuf (store s' c) = Advance (outBuf (store s c)) n"
      using loopCloseConn_frame(1)[OF C] unix_Write_frame(2)[OF fatal2(3)]
        unix_Write_frame(2)[OF fatal2(1)]
      by (simp add: adv_frame emit_def e)
    show ?thesis
      unfolding new_events_append[OF tr] using e fatal2(2,4) st w2 by (auto simp: writes_of_append)
  next
    case (two s1 sg n' s3)
    have e: "err = None" "n = int (length seg1)"
      using unix_Write_frame(8)[OF two(1)] W by (simp_all add: t0)
    have E: "loopWrite_end c (adv c n' s3) = (r, s')" using two(4) L by simp
    have t1: "trace s1 = trace s @ [EvPreWrite, EvWrite ?d seg1]"
      using unix_Write_frame(1)[OF two(1)] by (simp add: t0)
    have w2: "Write_res E (trace s @ [EvPreWrite, EvWrite ?d seg1]) ?d sg = (n', None)"
      using unix_Write_frame(8)[OF two(3)] by (simp add: adv_frame t1)
    have tr: "trace s' = trace s @ [EvPreWrite, EvWrite ?d seg1, EvWrite ?d sg] @
                (if Length (outBuf (store (adv c n' s3) c)) = 0
                 then [EvModRead (fd (store (adv c n' s3) c))] else [])"
      using unix_Write_frame(1)[OF two(3)] loopWrite_end_frame(6)[OF E]
      by (simp add: adv_frame t1)
    have st: "outBuf (store s' c) = Advance (Advance (outBuf (store s c)) n) n'"
      using loopWrite_end_frame(2)[OF E] unix_Write_frame(2)[OF two(3)]
        unix_Write_frame(2)[OF two(1)]
      by (simp add: adv_frame emit_def e)
    show ?thesis
      unfolding new_events_append[OF tr] using e two(2) st w2 by (auto simp: writes_of_append)
  qed
  then show
    "writes_of (new_events s s') =
           (fd (store s c), seg1) #
           (if err = None \<and> int (length seg1) = n
            then (case seg2 of Some seg \<Rightarrow> [(fd (store s c), seg)] | None \<Rightarrow> [])
            else [])"
    and "err = Some EAGAIN \<longrightarrow>
           r = Ret_nil \<and> outBuf (store s' c) = outBuf (store s c) \<and> wire s' = wire s"
    and "err = None \<and> (int (length seg1) \<noteq> n \<or> seg2 = None) \<longrightarrow>
           r = Ret_nil \<and> outBuf (store s' c) = Advance (outBuf (store s c)) n"
    and "err = None \<and> int (length seg1) = n \<and> seg2 = Some seg \<longrightarrow>
           outBuf (store s' c) =
             (case Write_res E (trace s @ [EvPreWrite, EvWrite (fd (store s c)) seg1])
                     (fd (store s c)) seg of
                (n2, err2) \<Rightarrow>
                  if err2 = None then Advance (Advance (outBuf (store s c)) n) n2
                  else Advance (outBuf (store s c)) n) \<and>
           (snd (Write_res E (trace s @ [EvPreWrite, EvWrite (fd (store s c)) seg1])
                     (fd (store s c)) seg) = Some EAGAIN \<longrightarrow> r = Ret_nil)"
    by blast+
qed


lemma PreReadAll_rest:
  assumes wf: "rb_wf b" and P: "PreReadAll b = (seg1, Some seg)"
  shows "0 < Length (Advance b (int (length seg1)))"
proof -
  have "Length b = length seg1 + length seg"
    using length_unread[OF wf] PreReadAll_unread[OF wf P] by simp
  moreover have "seg \<noteq> []" using PreReadAll_second[OF wf P] by simp
  ultimately show ?thesis by (simp add: Advance_Length)
qed

lemma loopWrite_times_wf:
  assumes rng: "write_in_range E" and nf: "write_never_fatal E"
  shows "rb_wf (outBuf (store s c)) \<Longrightarrow> rb_wf (outBuf (store (snd (loopWrite_times E c k s)) c))"
proof (induction k arbitrary: s)
  case 0
  then show ?case by simp
next
  case (Suc k)
  obtain r s' where L: "loopWrite E c s = (r, s')" by (metis prod.exhaust)
  note S = loopWrite_stream[OF Suc.prems rng nf L]
  show ?case using Suc.IH[of s'] S by (simp add: L)
qed

text \<open>
  Claim C4. \<open>loopWrite\<close> keeps the byte stream of a connection, whatever the state of its
  outbound buffer: on a socket whose writes report a count within the buffer they were
  given and either succeed or would block, one call returns \<^verbatim>\<open>nil\<close>; it writes the first
  segment of the view, and the second one only after the first was taken in full and when
  there is one; a first write that would block leaves the buffer as it was; otherwise the
  buffer is advanced by the count each write reported; and what the descriptor has accepted
  followed by what is still queued is the same byte list before and after. The same holds
  after any number of calls, so once the buffer is empty the descriptor has accepted exactly
  the bytes that were queued, in their order.
\<close>

theorem loopWrite_preserves_stream:
  assumes wf: "rb_wf (outBuf (store s c))"
    and rng: "write_in_range E" and nf: "write_never_fatal E"
  shows "(let d = fd (store s c);
              (seg1, seg2) = PreReadAll (outBuf (store s c));
              (n, err) = Write_res E (trace s @ [EvPreWrite]) d seg1;
              (r, s') = loopWrite E c s
          in r = Ret_nil \<and>
             writes_of (new_events s s') =
               (d, seg1) #
               (if err = None \<and> int (length seg1) = n
                then (case seg2 of Some seg \<Rightarrow> [(d, seg)] | None \<Rightarrow> []) else []) \<and>
             (err = Some EAGAIN \<longrightarrow>
                outBuf (store s' c) = outBuf (store s c) \<and> wire s' = wire s) \<and>
             (err = None \<and> (int (length seg1) \<noteq> n \<or> seg2 = None) \<longrightarrow>
                outBuf (store s' c) = Advance (outBuf (store s c)) n) \<and>
             (\<forall>seg. err = None \<and> int (length seg1) = n \<and> seg2 = Some seg \<longrightarrow>
                outBuf (store s' c) =
                  (case Write_res E (trace s @ [EvPreWrite, EvWrite d seg1]) d seg of
                     (n2, err2) \<Rightarrow>
                       if err2 = None then Advance (Advance (outBuf (store s c)) n) n2
                       else Advance (outBuf (store s c)) n)) \<and>
             stream c s' = stream c s) \<and>
         (\<forall>k. let (r, s') = loopWrite_times E c k s
              in r = Ret_nil \<and> stream c s' = stream c s \<and>
                 (Length (outBuf (store s' c)) = 0 \<longrightarrow>
                    wire s' (fd (store s c)) =
                      wire s (fd (store s c)) @ unread (outBuf (store s c))))"
proof (intro conjI allI)
  obtain seg1 seg2 where P: "PreReadAll (outBuf (store s c)) = (seg1, seg2)"
    by (metis prod.exhaust)
  obtain n err where W: "Write_res E (trace s @ [EvPreWrite]) (fd (store s c)) seg1 = (n, err)"
    by (metis prod.exhaust)
  obtain r s' where L: "loopWrite E c s = (r, s')" by (metis prod.exhaust)
  note S = loopWrite_structure[OF P W L]
  note T = loopWrite_stream[OF wf rng nf L]
  show "let d = fd (store s c);
              (seg1, seg2) = PreReadAll (outBuf (store s c));
              (n, err) = Write_res E (trace s @ [EvPreWrite]) d seg1;
              (r, s') = loopWrite E c s
          in r = Ret_nil \<and>
             writes_of (new_events s s') =
               (d, seg1) #
               (if err = None \<and> int (length seg1) = n
                then (case seg2 of Some seg \<Rightarrow> [(d, seg)] | None \<Rightarrow> []) else []) \<and>
             (err = Some EAGAIN \<longrightarrow>
                outBuf (store s' c) = outBuf (store s c) \<and> wire s' = wire s) \<and>
             (err = None \<and> (int (length seg1) \<noteq> n \<or> seg2 = None) \<longrightarrow>
                outBuf (store s' c) = Advance (outBuf (store s c)) n) \<and>
             (\<forall>seg. err = None \<and> int (length seg1) = n \<and> seg2 = Some seg \<longrightarrow>
                outBuf (store s' c) =
                  (case Write_res E (trace s @ [EvPreWrite, EvWrite d seg1]) d seg of
                     (n2, err2) \<Rightarrow>
                       if err2 = None then Advance (Advance (outBuf (store s c)) n) n2
                       else Advance (outBuf (store s c)) n)) \<and>
             stream c s' = stream c s"
    unfolding Let_def P W L prod.case
    using S(1) S(2) S(3) S(4) T by blast
next
  fix k
  obtain r s' where K: "loopWrite_times E c k s = (r, s')" by (metis prod.exhaust)
  have A: "r = Ret_nil" "stream c s' = stream c s" "fd (store s' c) = fd (store s c)"
    using loopWrite_times_stream[OF rng nf wf, of k] by (simp_all add: K)
  have wf': "rb_wf (outBuf (store s' c))"
    using loopWrite_times_wf[OF rng nf wf, of k] by (simp add: K)
  have "wire s' (fd (store s c)) = wire s (fd (store s c)) @ unread (outBuf (store s c))"
    if "Length (outBuf (store s' c)) = 0"
  proof -
    have "unread (outBuf (store s' c)) = []"
      using length_unread[OF wf'] that by simp
    then show ?thesis using A(2,3) by (simp add: stream_def)
  qed
  then show "let (r, s') = loopWrite_times E c k s
              in r = Ret_nil \<and> stream c s' = stream c s \<and>
                 (Length (outBuf (store s' c)) = 0 \<longrightarrow>
                    wire s' (fd (store s c)) =
                      wire s (fd (store s c)) @ unread (outBuf (store s c)))"
    using A by (simp add: K)
qed

theorem loopWrite_preserves_stream_witness:
  "fst (loopWrite_times env_slow 0 3 loop_out) = Ret_nil \<and>
   wire (snd (loopWrite_times env_slow 0 3 loop_out)) 7 = [1, 2, 3] \<and>
   writes_of (trace (snd (loopWrite env_slow 0 loop_out))) = [(7, [1]), (7, [2, 3])] \<and>
   outBuf (store (snd (loopWrite env_slow 0 loop_out)) 0) = Advance rb_wrapped 1"
proof -
  have wf: "rb_wf (outBuf (store loop_out 0))"
    by (simp add: loop_out_def rb_wrapped_def rb_wf_def conn0_def)
  have rng: "write_in_range env_slow"
    by (simp add: write_in_range_def env_slow_def)
  have nf: "write_never_fatal env_slow"
    by (simp add: write_never_fatal_def env_slow_def)
  note T = loopWrite_preserves_stream [OF wf rng nf]
  have d: "fd (store loop_out 0) = 7" "wire loop_out 7 = []"
    "unread (outBuf (store loop_out 0)) = [1, 2, 3]" "trace loop_out = []"
    "outBuf (store loop_out 0) = rb_wrapped"
    by (simp_all add: loop_out_def loop1_def loop0_def conn0_def rb_wrapped_def unread_def)
  have p: "PreReadAll rb_wrapped = ([1], Some [2, 3])"
    by (simp add: PreReadAll_def rb_wrapped_def)
  have w: "Write_res env_slow [EvPreWrite] 7 [1] = (1, None)"
    "Write_res env_slow [EvPreWrite, EvWrite 7 [1]] 7 [2, 3] = (- 1, Some EAGAIN)"
    by (simp_all add: env_slow_def)
  have z: "Length (outBuf (store (snd (loopWrite_times env_slow 0 3 loop_out)) 0)) = 0"
    by code_simp
  have 1: "fst (loopWrite_times env_slow 0 3 loop_out) = Ret_nil \<and>
           wire (snd (loopWrite_times env_slow 0 3 loop_out)) 7 = [1, 2, 3]"
    using T[THEN conjunct2, rule_format, of 3] z unfolding d
    by (simp add: split_beta unread_def rb_wrapped_def)
  have 2: "writes_of (trace (snd (loopWrite env_slow 0 loop_out))) = [(7, [1]), (7, [2, 3])] \<and>
           outBuf (store (snd (loopWrite env_slow 0 loop_out)) 0) = Advance rb_wrapped 1"
    using T[THEN conjunct1] unfolding d Let_def p new_events_def
    by (simp add: split_beta w)
  show ?thesis using 1 2 by blast
qed

text \<open>
  Claim C9. A \<open>loopWrite\<close> call on a connection with bytes to send (the dispatch calls it
  only then) that did not go to \<open>loopCloseConn\<close> calls the Poller's \<^verbatim>\<open>ModRead\<close> for the
  connection's descriptor exactly when the outbound buffer has length zero at the end of the
  call; as long as bytes remain in the buffer, \<^verbatim>\<open>ModRead\<close> is not called.
\<close>

theorem loopWrite_ModRead_when_drained:
  assumes wf: "rb_wf (outBuf (store s c))"
    and pos: "0 < Length (outBuf (store s c))"
    and L: "loopWrite E c s = (r, s')"
    and nc: "EvDelete (fd (store s c)) \<notin> set (new_events s s')"
  shows "EvModRead (fd (store s c)) \<in> set (new_events s s')
           \<longleftrightarrow> Length (outBuf (store s' c)) = 0"
proof -
  let ?d = "fd (store s c)"
  obtain seg1 seg2 where P: "PreReadAll (outBuf (store s c)) = (seg1, seg2)"
    by (metis prod.exhaust)
  have t0: "trace (emit EvPreWrite s) = trace s @ [EvPreWrite]" by (simp add: emit_def)
  from P show ?thesis
  proof (cases rule: loopWrite_paths[where E = E])
    case (block1 m s1)
    have s: "s' = s1" using block1(2) L by simp
    have tr: "trace s' = trace s @ [EvPreWrite, EvWrite ?d seg1]"
      using unix_Write_frame(1)[OF block1(1)] by (simp add: s t0)
    have "outBuf (store s' c) = outBuf (store s c)"
      using unix_Write_frame(2)[OF block1(1)] by (simp add: s emit_def)
    then show ?thesis unfolding new_events_append[OF tr] using pos by simp
  next
    case (fatal1 m e s1)
    have C: "loopCloseConn E c (Some e) s1 = (r, s')" using fatal1(3) L by simp
    have f: "fd (store s1 c) = ?d" using unix_Write_frame(2)[OF fatal1(1)] by (simp add: emit_def)
    have tr: "trace s' = trace s @ [EvPreWrite, EvWrite ?d seg1] @
                ([EvDelete ?d] @
                 (if Delete_res E (trace s1) ?d = None then [EvCloseFd ?d] else []) @
                 [EvOnClosed c (Some e)])"
      using unix_Write_frame(1)[OF fatal1(1)] loopCloseConn_frame(6)[OF C] by (simp add: t0 f)
    show ?thesis using nc unfolding new_events_append[OF tr] by simp
  next
    case (one m s1)
    have E: "loopWrite_end c (adv c m s1) = (r, s')" using one(3) L by simp
    have f: "fd (store (adv c m s1) c) = ?d"
      using unix_Write_frame(2)[OF one(1)] by (simp add: emit_def adv_frame)
    have tr: "trace s' = trace s @ [EvPreWrite, EvWrite ?d seg1] @
                (if Length (outBuf (store (adv c m s1) c)) = 0 then [EvModRead ?d] else [])"
      using unix_Write_frame(1,2)[OF one(1)] loopWrite_end_frame(6)[OF E]
      by (simp add: t0 adv_frame emit_def)
    have st: "store s' = store (adv c m s1)" by (rule loopWrite_end_frame(2)[OF E])
    show ?thesis unfolding new_events_append[OF tr] st by simp
  next
    case (block2 s1 sg n' s3)
    have s: "s' = s3" using block2(4) L by simp
    have t1: "trace s1 = trace s @ [EvPreWrite, EvWrite ?d seg1]"
      using unix_Write_frame(1)[OF block2(1)] by (simp add: t0)
    have tr: "trace s' = trace s @ [EvPreWrite, EvWrite ?d seg1, EvWrite ?d sg]"
      using unix_Write_frame(1)[OF block2(3)] by (simp add: s adv_frame t1)
    have st: "outBuf (store s' c) = Advance (outBuf (store s c)) (int (length seg1))"
      using unix_Write_frame(2)[OF block2(3)] unix_Write_frame(2)[OF block2(1)]
      by (simp add: s adv_frame emit_def)
    have "0 < Length (outBuf (store s' c))"
      unfolding st using PreReadAll_rest[OF wf] P block2(2) by simp
    then show ?thesis unfolding new_events_append[OF tr] by simp
  next
    case (fatal2 s1 sg n' e s3)
    have C: "loopCloseConn E c (Some e) s3 = (r, s')" using fatal2(5) L by simp
    have f: "fd (store s3 c) = ?d"
      using unix_Write_frame(2)[OF fatal2(3)] unix_Write_frame(2)[OF fatal2(1)]
      by (simp add: emit_def adv_frame)
    have "EvDelete ?d \<in> set (new_events s s')"
      using unix_Write_frame(1)[OF fatal2(1)] unix_Write_frame(1)[OF fatal2(3)]
        loopCloseConn_frame(6)[OF C]
      by (simp add: new_events_def t0 f adv_frame)
    then show ?thesis using nc by simp
  next
    case (two s1 sg n' s3)
    have E: "loopWrite_end c (adv c n' s3) = (r, s')" using two(4) L by simp
    have f: "fd (store (adv c n' s3) c) = ?d"
      using unix_Write_frame(2)[OF two(3)] unix_Write_frame(2)[OF two(1)]
      by (simp add: emit_def adv_frame)
    have t1: "trace s1 = trace s @ [EvPreWrite, EvWrite ?d seg1]"
      using unix_Write_frame(1)[OF two(1)] by (simp add: t0)
    have tr: "trace s' = trace s @ [EvPreWrite, EvWrite ?d seg1, EvWrite ?d sg] @
                (if Length (outBuf (store (adv c n' s3) c)) = 0 then [EvModRead ?d] else [])"
      using unix_Write_frame(1,2)[OF two(3)] unix_Write_frame(2)[OF two(1)]
        loopWrite_end_frame(6)[OF E]
      by (simp add: adv_frame t1 emit_def)
    have st: "store s' = store (adv c n' s3)" by (rule loopWrite_end_frame(2)[OF E])
    show ?thesis unfolding new_events_append[OF tr] st by simp
  qed
qed

theorem loopWrite_ModRead_when_drained_witness:
  "EvModRead 7 \<in> set (trace (snd (loopWrite env0 0 loop_out))) \<and>
   Length (outBuf (store (snd (loopWrite env0 0 loop_out)) 0)) = 0 \<and>
   EvModRead 7 \<notin> set (trace (snd (loopWrite env_slow 0 loop_out))) \<and>
   Length (outBuf (store (snd (loopWrite env_slow 0 loop_out)) 0)) = 2"
proof -
  have wf: "rb_wf (outBuf (store loop_out 0))"
    by (simp add: loop_out_def rb_wrapped_def rb_wf_def conn0_def)
  have pos: "0 < Length (outBuf (store loop_out 0))"
    by (simp add: loop_out_def rb_wrapped_def Length_def conn0_def)
  have L: "loopWrite E 0 loop_out = (fst (loopWrite E 0 loop_out), snd (loopWrite E 0 loop_out))" for E
    by simp
  have d: "fd (store loop_out 0) = 7"
    by (simp add: loop_out_def conn0_def)
  have tr: "new_events loop_out s' = trace s'" for s'
    by (simp add: new_events_def loop_out_def loop1_def loop0_def)
  have nc0: "EvDelete (fd (store loop_out 0)) \<notin> set (new_events loop_out (snd (loopWrite env0 0 loop_out)))"
    unfolding tr d by code_simp
  have nc1: "EvDelete (fd (store loop_out 0)) \<notin> set (new_events loop_out (snd (loopWrite env_slow 0 loop_out)))"
    unfolding tr d by code_simp
  have z0: "Length (outBuf (store (snd (loopWrite env0 0 loop_out)) 0)) = 0"
    by code_simp
  have z1: "Length (outBuf (store (snd (loopWrite env_slow 0 loop_out)) 0)) = 2"
    by code_simp
  show ?thesis
    using loopWrite_ModRead_when_drained [OF wf pos L nc0]
      loopWrite_ModRead_when_drained [OF wf pos L nc1] z0 z1
    unfolding tr d by simp
qed

section \<open>Datagrams\<close>







section \<open>The open callback comes once and first\<close>

lemma quiet_step_refl: "quiet_step s s"
  by (simp add: quiet_step_def)

lemma quiet_step_trans:
  assumes "quiet_step s t" and "quiet_step t u"
  shows "quiet_step s u"
proof -
  obtain es where 1: "trace t = trace s @ es" "\<forall>e \<in> set es. \<not> is_callback e"
    using assms(1) by (auto simp: quiet_step_def)
  obtain fs where 2: "trace u = trace t @ fs" "\<forall>e \<in> set fs. \<not> is_callback e"
    using assms(2) by (auto simp: quiet_step_def)
  have "trace u = trace s @ (es @ fs) \<and> (\<forall>e \<in> set (es @ fs). \<not> is_callback e)"
    using 1 2 by auto
  then have "\<exists>gs. trace u = trace s @ gs \<and> (\<forall>e \<in> set gs. \<not> is_callback e)" by blast
  then show ?thesis using assms unfolding quiet_step_def by simp
qed

lemma quiet_emit: "\<not> is_callback e \<Longrightarrow> quiet_step s (emit e s)"
  by (simp add: quiet_step_def emit_def)

lemma quiet_upd_conn: "(\<And>k. opened (f k) = opened k) \<Longrightarrow> quiet_step s (upd_conn c f s)"
  by (simp add: quiet_step_def upd_conn_def)

lemma quiet_adv: "quiet_step s (adv c n s)"
  unfolding adv_def by (rule quiet_upd_conn) simp

lemma quiet_unix_Write: "unix_Write E d p s = (res, s1) \<Longrightarrow> quiet_step s s1"
  by (auto simp: unix_Write_def emit_def quiet_step_def split: prod.splits)

lemma quiet_unix_Read: "unix_Read E d s = (res, s1) \<Longrightarrow> quiet_step s s1"
  by (auto simp: unix_Read_def emit_def quiet_step_def split: prod.splits)

lemma quiet_unix_Recvfrom: "unix_Recvfrom E d s = (res, s1) \<Longrightarrow> quiet_step s s1"
  by (auto simp: unix_Recvfrom_def emit_def quiet_step_def split: prod.splits)

lemma quiet_loopCloseConn: "loopCloseConn E c err s = (r, s') \<Longrightarrow> quiet_step s s'"
  using loopCloseConn_frame[of E c err s r s']
  by (auto simp: quiet_step_def split: if_splits)

lemma quiet_handleAction: "handleAction E c s = (r, s') \<Longrightarrow> quiet_step s s'"
  by (auto simp: handleAction_def quiet_step_refl quiet_loopCloseConn split: Action.splits)

lemma quiet_conn_write: "quiet_step s (conn_write E c buf s)"
proof -
  obtain res s1 where W: "unix_Write E (fd (store s c)) buf s = (res, s1)"
    by (metis prod.exhaust)
  have "quiet_step s1 (upd_conn c (\<lambda>k. k\<lparr>outBuf := Write_rb (outBuf k) x\<rparr>) s1)" for x
    by (rule quiet_upd_conn) simp
  then show ?thesis
    using quiet_unix_Write[OF W] W
    by (auto simp: conn_write_def Let_def upd_conn_def split: prod.splits intro: quiet_step_trans)
qed

lemma quiet_loopWrite_end: "loopWrite_end c s = (r, s') \<Longrightarrow> quiet_step s s'"
  by (auto simp: loopWrite_end_def quiet_step_refl quiet_emit split: if_splits)

lemma quiet_loopWrite:
  assumes L: "loopWrite E c s = (r, s')"
  shows "quiet_step s s'"
proof -
  obtain seg1 seg2 where P: "PreReadAll (outBuf (store s c)) = (seg1, seg2)"
    by (metis prod.exhaust)
  have q0: "quiet_step s (emit EvPreWrite s)" by (rule quiet_emit) simp
  from P show ?thesis
  proof (cases rule: loopWrite_paths[where E = E])
    case (block1 n s1)
    then show ?thesis using L q0 quiet_unix_Write quiet_step_trans by (metis prod.inject)
  next
    case (fatal1 n e s1)
    then show ?thesis
      using L q0 quiet_unix_Write quiet_loopCloseConn quiet_step_trans by metis
  next
    case (one n s1)
    then show ?thesis
      using L q0 quiet_unix_Write quiet_loopWrite_end quiet_adv quiet_step_trans by metis
  next
    case (block2 s1 seg n' s3)
    have "quiet_step s s1" using q0 quiet_unix_Write[OF block2(1)] quiet_step_trans by blast
    then have "quiet_step s s3"
      using quiet_adv quiet_unix_Write[OF block2(3)] quiet_step_trans by blast
    then show ?thesis using L block2(4) by simp
  next
    case (fatal2 s1 seg n' e s3)
    have "quiet_step s s1" using q0 quiet_unix_Write[OF fatal2(1)] quiet_step_trans by blast
    then have "quiet_step s s3"
      using quiet_adv quiet_unix_Write[OF fatal2(3)] quiet_step_trans by blast
    then show ?thesis
      using L fatal2(5) quiet_loopCloseConn quiet_step_trans by metis
  next
    case (two s1 seg n' s3)
    have "quiet_step s s1" using q0 quiet_unix_Write[OF two(1)] quiet_step_trans by blast
    then have "quiet_step s s3"
      using quiet_adv quiet_unix_Write[OF two(3)] quiet_step_trans by blast
    then have "quiet_step s (adv c n' s3)" using quiet_adv quiet_step_trans by blast
    then show ?thesis
      using L two(4) quiet_loopWrite_end quiet_step_trans by metis
  qed
qed


lemma react_after_open_append:
  assumes "react_after_open c tr" and "EvReact c \<in> set es \<Longrightarrow> EvOnOpened c \<in> set tr"
  shows "react_after_open c (tr @ es)"
  unfolding react_after_open_def
proof (intro allI impI)
  fix i
  assume i: "i < length (tr @ es)" and r: "(tr @ es) ! i = EvReact c"
  show "EvOnOpened c \<in> set (take i (tr @ es))"
  proof (cases "i < length tr")
    case True
    then show ?thesis using assms(1) r by (simp add: react_after_open_def nth_append)
  next
    case False
    then have "es ! (i - length tr) = EvReact c" "i - length tr < length es"
      using r i by (simp_all add: nth_append)
    then have "EvReact c \<in> set es" by (metis nth_mem)
    then show ?thesis using assms(2) False by simp
  qed
qed

lemma open_inv_step:
  assumes I: "open_inv s"
    and tr: "trace s' = trace s @ es"
    and nr: "next_ref s \<le> next_ref s'"
    and ev: "\<And>c. EvOnOpened c \<in> set es \<Longrightarrow>
               c < next_ref s \<and> \<not> opened (store s c) \<and> count_list es (EvOnOpened c) = 1"
    and rc: "\<And>c. EvReact c \<in> set es \<Longrightarrow> c < next_ref s \<and> opened (store s c)"
    and op: "\<And>c. c < next_ref s \<Longrightarrow>
               opened (store s' c) = (opened (store s c) \<or> EvOnOpened c \<in> set es)"
    and fresh: "\<And>c. next_ref s \<le> c \<Longrightarrow> c < next_ref s' \<Longrightarrow> \<not> opened (store s' c)"
    and cn: "\<And>d c. connections s' d = Some c \<Longrightarrow> c < next_ref s'"
  shows "open_inv s'"
proof -
  have Ia: "\<And>c. c < next_ref s \<Longrightarrow> opened (store s c) = (EvOnOpened c \<in> set (trace s))"
    and Ib: "\<And>c. next_ref s \<le> c \<Longrightarrow> EvOnOpened c \<notin> set (trace s) \<and> EvReact c \<notin> set (trace s)"
    and Ic: "\<And>c. count_list (trace s) (EvOnOpened c) \<le> 1"
    and Id: "\<And>c. react_after_open c (trace s)"
    using I unfolding open_inv_def by blast+
  have a: "opened (store s' c) = (EvOnOpened c \<in> set (trace s'))" if "c < next_ref s'" for c
  proof (cases "c < next_ref s")
    case True
    then show ?thesis using op[OF True] Ia[OF True] by (simp add: tr)
  next
    case False
    then have "\<not> opened (store s' c)" using fresh that by simp
    moreover have "EvOnOpened c \<notin> set (trace s')"
      using Ib[of c] ev[of c] False by (auto simp: tr)
    ultimately show ?thesis by simp
  qed
  have b: "EvOnOpened c \<notin> set (trace s') \<and> EvReact c \<notin> set (trace s')" if "next_ref s' \<le> c" for c
  proof -
    have "next_ref s \<le> c" using that nr by simp
    then show ?thesis using Ib[of c] ev[of c] rc[of c] by (auto simp: tr)
  qed
  have c: "count_list (trace s') (EvOnOpened c) \<le> 1" for c
  proof (cases "EvOnOpened c \<in> set es")
    case True
    then have "EvOnOpened c \<notin> set (trace s)" "count_list es (EvOnOpened c) = 1"
      using ev[OF True] Ia[of c] by simp_all
    then show ?thesis by (simp add: tr count_list_0_iff)
  next
    case False
    then show ?thesis using Ic[of c] by (simp add: tr count_list_0_iff)
  qed
  have d: "react_after_open c (trace s')" for c
    unfolding tr
  proof (rule react_after_open_append[OF Id])
    assume "EvReact c \<in> set es"
    then show "EvOnOpened c \<in> set (trace s)" using rc[of c] Ia[of c] by simp
  qed
  show ?thesis unfolding open_inv_def using a b c d cn by blast
qed

lemma open_inv_less: "open_inv s \<Longrightarrow> connections s d = Some c \<Longrightarrow> c < next_ref s"
  unfolding open_inv_def by blast

lemma not_callback_mem:
  "\<forall>e \<in> set es. \<not> is_callback e \<Longrightarrow> EvOnOpened c \<notin> set es \<and> EvReact c \<notin> set es"
  by auto

lemma open_inv_quiet:
  assumes I: "open_inv s" and Q: "quiet_step s s'"
  shows "open_inv s'"
proof -
  obtain es where es: "trace s' = trace s @ es" "\<forall>e \<in> set es. \<not> is_callback e"
    using Q by (auto simp: quiet_step_def)
  note nc = not_callback_mem[OF es(2)]
  have nr: "next_ref s' = next_ref s" and op: "\<And>k. opened (store s' k) = opened (store s k)"
    and cn: "\<And>d k. connections s' d = Some k \<Longrightarrow> connections s d = Some k"
    using Q by (auto simp: quiet_step_def)
  show ?thesis
  proof (rule open_inv_step[OF I es(1)])
    show "next_ref s \<le> next_ref s'" by (simp add: nr)
    show "\<And>c. EvOnOpened c \<in> set es \<Longrightarrow>
           c < next_ref s \<and> \<not> opened (store s c) \<and> count_list es (EvOnOpened c) = 1"
      using nc by simp
    show "\<And>c. EvReact c \<in> set es \<Longrightarrow> c < next_ref s \<and> opened (store s c)"
      using nc by simp
    show "\<And>c. c < next_ref s \<Longrightarrow>
           opened (store s' c) = (opened (store s c) \<or> EvOnOpened c \<in> set es)"
      using nc op by simp
    show "\<And>c. next_ref s \<le> c \<Longrightarrow> c < next_ref s' \<Longrightarrow> \<not> opened (store s' c)"
      by (simp add: nr)
    show "\<And>d c. connections s' d = Some c \<Longrightarrow> c < next_ref s'"
      using cn open_inv_less[OF I] unfolding nr by blast
  qed
qed

lemma open_inv_OnOpened:
  assumes I: "open_inv s" and c: "c < next_ref s" and n: "\<not> opened (store s c)"
    and f: "\<And>k. opened (f k)"
  shows "open_inv (emit (EvOnOpened c) (upd_conn c f s))"
proof (rule open_inv_step[OF I, where es = "[EvOnOpened c]"])
  show "trace (emit (EvOnOpened c) (upd_conn c f s)) = trace s @ [EvOnOpened c]"
    by (simp add: emit_def upd_conn_def)
  show "next_ref s \<le> next_ref (emit (EvOnOpened c) (upd_conn c f s))"
    by (simp add: emit_def upd_conn_def)
  show "\<And>k. EvOnOpened k \<in> set [EvOnOpened c] \<Longrightarrow>
         k < next_ref s \<and> \<not> opened (store s k) \<and> count_list [EvOnOpened c] (EvOnOpened k) = 1"
    using c n by simp
  show "\<And>k. EvReact k \<in> set [EvOnOpened c] \<Longrightarrow> k < next_ref s \<and> opened (store s k)"
    by simp
  show "\<And>k. k < next_ref s \<Longrightarrow>
         opened (store (emit (EvOnOpened c) (upd_conn c f s)) k)
           = (opened (store s k) \<or> EvOnOpened k \<in> set [EvOnOpened c])"
    using f by (auto simp: emit_def upd_conn_def)
  show "\<And>k. next_ref s \<le> k \<Longrightarrow> k < next_ref (emit (EvOnOpened c) (upd_conn c f s)) \<Longrightarrow>
         \<not> opened (store (emit (EvOnOpened c) (upd_conn c f s)) k)"
    by (simp add: emit_def upd_conn_def)
  show "\<And>d k. connections (emit (EvOnOpened c) (upd_conn c f s)) d = Some k \<Longrightarrow>
         k < next_ref (emit (EvOnOpened c) (upd_conn c f s))"
    using open_inv_less[OF I] by (simp add: emit_def upd_conn_def)
qed

lemma open_inv_React:
  assumes I: "open_inv s" and c: "c < next_ref s" and o: "opened (store s c)"
  shows "open_inv (emit (EvReact c) s)"
proof (rule open_inv_step[OF I, where es = "[EvReact c]"])
  show "trace (emit (EvReact c) s) = trace s @ [EvReact c]" by (simp add: emit_def)
  show "next_ref s \<le> next_ref (emit (EvReact c) s)" by (simp add: emit_def)
  show "\<And>k. EvOnOpened k \<in> set [EvReact c] \<Longrightarrow>
         k < next_ref s \<and> \<not> opened (store s k) \<and> count_list [EvReact c] (EvOnOpened k) = 1"
    by simp
  show "\<And>k. EvReact k \<in> set [EvReact c] \<Longrightarrow> k < next_ref s \<and> opened (store s k)"
    using c o by simp
  show "\<And>k. k < next_ref s \<Longrightarrow>
         opened (store (emit (EvReact c) s) k) = (opened (store s k) \<or> EvOnOpened k \<in> set [EvReact c])"
    by (simp add: emit_def)
  show "\<And>k. next_ref s \<le> k \<Longrightarrow> k < next_ref (emit (EvReact c) s) \<Longrightarrow>
         \<not> opened (store (emit (EvReact c) s) k)"
    by (simp add: emit_def)
  show "\<And>d k. connections (emit (EvReact c) s) d = Some k \<Longrightarrow> k < next_ref (emit (EvReact c) s)"
    using open_inv_less[OF I] by (simp add: emit_def)
qed

lemma open_inv_alloc:
  assumes I: "open_inv s" and n: "\<not> opened k"
  shows "open_inv (s\<lparr>store := (store s)(next_ref s := k), next_ref := Suc (next_ref s)\<rparr>)"
proof (rule open_inv_step[OF I, where es = "[]"])
  show "\<And>c. c < next_ref s \<Longrightarrow>
         opened (store (s\<lparr>store := (store s)(next_ref s := k), next_ref := Suc (next_ref s)\<rparr>) c)
           = (opened (store s c) \<or> EvOnOpened c \<in> set [])"
    by simp
  show "\<And>c. next_ref s \<le> c \<Longrightarrow>
         c < next_ref (s\<lparr>store := (store s)(next_ref s := k), next_ref := Suc (next_ref s)\<rparr>) \<Longrightarrow>
         \<not> opened (store (s\<lparr>store := (store s)(next_ref s := k), next_ref := Suc (next_ref s)\<rparr>) c)"
    using n by (auto simp: less_Suc_eq)
  show "\<And>d c. connections (s\<lparr>store := (store s)(next_ref s := k), next_ref := Suc (next_ref s)\<rparr>) d
           = Some c \<Longrightarrow>
         c < next_ref (s\<lparr>store := (store s)(next_ref s := k), next_ref := Suc (next_ref s)\<rparr>)"
    using open_inv_less[OF I] by (auto simp: less_Suc_eq)
qed simp_all

lemma open_inv_connect:
  assumes I: "open_inv s" and c: "c < next_ref s"
  shows "open_inv (s\<lparr>connections := (connections s)(d \<mapsto> c)\<rparr>)"
  using I c unfolding open_inv_def by auto


lemma quiet_step_trace: "quiet_step s s' \<Longrightarrow> \<exists>es. trace s' = trace s @ es \<and> (\<forall>e \<in> set es. \<not> is_callback e)"
  by (simp add: quiet_step_def)

lemma quiet_step_no_open:
  assumes "quiet_step s s'"
  shows "\<exists>es. trace s' = trace s @ es \<and> (\<forall>k. EvOnOpened k \<notin> set es)"
proof -
  obtain es where "trace s' = trace s @ es" "\<forall>e \<in> set es. \<not> is_callback e"
    using quiet_step_trace[OF assms] by blast
  then show ?thesis using not_callback_mem[of es] by blast
qed

lemma quiet_step_opened: "quiet_step s s' \<Longrightarrow> opened (store s' k) = opened (store s k)"
  by (simp add: quiet_step_def)

lemma quiet_step_next_ref: "quiet_step s s' \<Longrightarrow> next_ref s' = next_ref s"
  by (simp add: quiet_step_def)

lemma quiet_if_emit: "\<not> is_callback e \<Longrightarrow> quiet_step s (if b then emit e s else s)"
  by (simp add: quiet_emit quiet_step_refl)

lemma loopOpened_split:
  assumes L: "loopOpened E c s = (r, s')"
  obtains f where "\<And>k. opened (f k)"
    and "quiet_step (emit (EvOnOpened c) (upd_conn c f s)) s'"
proof -
  define f :: "conn \<Rightarrow> conn" where "f = (\<lambda>k. k\<lparr>opened := True, localAddr := ln_lnaddr (svr s),
                                 remoteAddr := SockaddrToTCPOrUnixAddr E (sa k)\<rparr>)"
  define s1 where "s1 = upd_conn c f s"
  obtain out a where A: "OnOpened E (trace s1) (store s1 c) = (out, a)" by (metis prod.exhaust)
  define s2 where "s2 = emit (EvOnOpened c) s1"
  define s3 where "s3 = upd_conn c (\<lambda>k. k\<lparr>action := a\<rparr>) s2"
  define s4 where "s4 = (if TCPKeepAlive (svr s3) > 0 \<and> ln_is_TCPListener (svr s3)
                then emit (EvSetKeepAlive (fd (store s3 c))
                            (TCPKeepAlive (svr s3) div time_Second)) s3
                else s3)"
  define s5 where "s5 = (if length out > 0 then conn_open E c out s4 else s4)"
  define s6 where "s6 = (if Length (outBuf (store s5 c)) \<noteq> 0
                then emit (EvAddWrite (fd (store s5 c))) s5 else s5)"
  have H: "handleAction E c s6 = (r, s')"
    using L unfolding loopOpened_def Let_def f_def[symmetric] s1_def[symmetric] A prod.case
      s2_def[symmetric] s3_def[symmetric] s4_def[symmetric] s5_def[symmetric] s6_def[symmetric] .
  have q3: "quiet_step s2 s3" unfolding s3_def by (rule quiet_upd_conn) simp
  have q4: "quiet_step s3 s4" unfolding s4_def by (rule quiet_if_emit) simp
  have q5: "quiet_step s4 s5"
    unfolding s5_def conn_open_def by (simp add: quiet_conn_write quiet_step_refl)
  have q6: "quiet_step s5 s6" unfolding s6_def by (rule quiet_if_emit) simp
  have "quiet_step s2 s'"
    using q3 q4 q5 q6 quiet_handleAction[OF H] quiet_step_trans by blast
  moreover have "\<And>k. opened (f k)" by (simp add: f_def)
  ultimately show thesis using that[of f] by (simp add: s2_def s1_def)
qed

lemma open_inv_loopOpened:
  assumes I: "open_inv s" and c: "c < next_ref s" and n: "\<not> opened (store s c)"
    and L: "loopOpened E c s = (r, s')"
  shows "open_inv s'" and "opened (store s' c)"
    and "\<exists>es. trace s' = trace s @ EvOnOpened c # es \<and> (\<forall>e \<in> set es. \<not> is_callback e)"
proof -
  obtain f where f: "\<And>k. opened (f k)"
    and q: "quiet_step (emit (EvOnOpened c) (upd_conn c f s)) s'"
    using loopOpened_split[OF L] by blast
  show "open_inv s'" using open_inv_quiet[OF open_inv_OnOpened[OF I c n f] q] .
  show "opened (store s' c)"
    using quiet_step_opened[OF q, of c] f by (simp add: emit_def upd_conn_def)
  show "\<exists>es. trace s' = trace s @ EvOnOpened c # es \<and> (\<forall>e \<in> set es. \<not> is_callback e)"
    using quiet_step_trace[OF q] by (simp add: emit_def upd_conn_def)
qed

lemma open_inv_loopRead:
  assumes I: "open_inv s" and c: "c < next_ref s" and o: "opened (store s c)"
    and L: "loopRead E c s = (r, s')"
  shows "open_inv s'" and "\<exists>es. trace s' = trace s @ es \<and> (\<forall>k. EvOnOpened k \<notin> set es)"
proof -
  obtain n err s1 where R: "unix_Read E (fd (store s c)) s = ((n, err), s1)"
    by (metis prod.exhaust)
  note q1 = quiet_unix_Read[OF R]
  obtain es1 where e1: "trace s1 = trace s @ es1" "\<forall>e \<in> set es1. \<not> is_callback e"
    using quiet_step_trace[OF q1] by blast
  have "open_inv s' \<and> (\<exists>es. trace s' = trace s @ es \<and> (\<forall>k. EvOnOpened k \<notin> set es))"
  proof (cases "n = 0 \<or> err \<noteq> None")
    case True
    have "quiet_step s1 s'"
      using L True unfolding loopRead_def R
      by (auto simp: quiet_step_refl quiet_loopCloseConn split: if_splits)
    then have q: "quiet_step s s'" using q1 quiet_step_trans by blast
    show ?thesis
      using open_inv_quiet[OF I q] quiet_step_no_open[OF q] by blast
  next
    case False
    show ?thesis
    proof (cases "slice_to (packet s1) n")
      case None
      then have "s' = s1" using L False unfolding loopRead_def R by simp
      then show ?thesis using open_inv_quiet[OF I q1] quiet_step_no_open[OF q1] by blast
    next
      case (Some bs)
      define s2 where "s2 = upd_conn c (\<lambda>k. k\<lparr>extra := bs\<rparr>) s1"
      obtain out a where A: "React E (trace s2) (store s2 c) = (out, a)" by (metis prod.exhaust)
      define s3 where "s3 = emit (EvReact c) s2"
      define s4 where "s4 = upd_conn c (\<lambda>k. k\<lparr>action := a\<rparr>) s3"
      define s5 where "s5 = (if length out > 0 then conn_write E c out s4
                             else if a \<noteq> DataRead
                               then upd_conn c (\<lambda>k. k\<lparr>inBuf := Write_rb (inBuf k) (extra k)\<rparr>) s4
                             else s4)"
      have H: "handleAction E c s5 = (r, s')"
        using L False unfolding loopRead_def R prod.case Let_def Some option.case
          s2_def[symmetric] A s3_def[symmetric] s4_def[symmetric] s5_def[symmetric]
        by simp
      have q2: "quiet_step s1 s2" unfolding s2_def by (rule quiet_upd_conn) simp
      have q02: "quiet_step s s2" using q1 q2 quiet_step_trans by blast
      have I2: "open_inv s2" by (rule open_inv_quiet[OF I q02])
      have c2: "c < next_ref s2" "opened (store s2 c)"
        using c o quiet_step_next_ref[OF q02] quiet_step_opened[OF q02] by simp_all
      have I3: "open_inv s3" unfolding s3_def by (rule open_inv_React[OF I2 c2])
      have q4: "quiet_step s3 s4" unfolding s4_def by (rule quiet_upd_conn) simp
      have q5: "quiet_step s4 s5"
        unfolding s5_def by (simp add: quiet_conn_write quiet_step_refl quiet_upd_conn)
      have q35: "quiet_step s3 s'"
        using q4 q5 quiet_handleAction[OF H] quiet_step_trans by blast
      obtain es2 where e2: "trace s2 = trace s @ es2" "\<forall>e \<in> set es2. \<not> is_callback e"
        using quiet_step_trace[OF q02] by blast
      obtain es3 where e3: "trace s' = trace s3 @ es3" "\<forall>e \<in> set es3. \<not> is_callback e"
        using quiet_step_trace[OF q35] by blast
      have "trace s' = trace s @ (es2 @ EvReact c # es3)"
        using e2 e3 by (simp add: s3_def emit_def)
      moreover have "\<forall>k. EvOnOpened k \<notin> set (es2 @ EvReact c # es3)"
        using not_callback_mem[OF e2(2)] not_callback_mem[OF e3(2)] by simp
      ultimately show ?thesis using open_inv_quiet[OF I3 q35] by blast
    qed
  qed
  then show "open_inv s'" and "\<exists>es. trace s' = trace s @ es \<and> (\<forall>k. EvOnOpened k \<notin> set es)"
    by blast+
qed


lemma quiet_loopUDPRead:
  assumes L: "loopUDPRead E d s = (r, s')"
  shows "quiet_step s s'"
proof -
  obtain n peer err s1 where R: "unix_Recvfrom E d s = ((n, peer, err), s1)"
    by (metis prod.exhaust)
  note q1 = quiet_unix_Recvfrom[OF R]
  show ?thesis
  proof (cases "err \<noteq> None \<or> n = 0")
    case True
    then have "s' = s1" using L unfolding loopUDPRead_def R by auto
    then show ?thesis using q1 by simp
  next
    case False
    show ?thesis
    proof (cases "slice_to (packet s1) n")
      case None
      then have "s' = s1" using L False unfolding loopUDPRead_def R by simp
      then show ?thesis using q1 by simp
    next
      case (Some bs)
      define k where "k = udp_conn E s1 (udp_sa6 peer) bs"
      obtain out a where A: "React E (trace s1) k = (out, a)" by (metis prod.exhaust)
      define s2 where "s2 = emit (EvReactDatagram k) s1"
      define s3 where "s3 = (if length out > 0
                             then emit (EvSendto d out peer) (emit EvPreWrite s2) else s2)"
      have s': "s' = s3"
        using L False unfolding loopUDPRead_def R prod.case Let_def Some option.case
          k_def[symmetric] A s2_def[symmetric] s3_def[symmetric]
        by (auto split: Action.splits)
      have q2: "quiet_step s1 s2" unfolding s2_def by (rule quiet_emit) simp
      have "quiet_step s2 (emit (EvSendto d out peer) (emit EvPreWrite s2))"
        by (rule quiet_step_trans[OF quiet_emit quiet_emit]) simp_all
      then have q3: "quiet_step s2 s3" unfolding s3_def by (simp add: quiet_step_refl)
      show ?thesis unfolding s' using q1 q2 q3 quiet_step_trans by blast
    qed
  qed
qed

lemma open_inv_loopAccept:
  assumes I: "open_inv s" and L: "loopAccept E d s = (r, s')"
  shows "open_inv s'"
proof (cases "d = ln_fd (svr s)")
  case False
  then show ?thesis using I L by (simp add: loopAccept_def)
next
  case ln: True
  show ?thesis
  proof (cases "ln_pconn (svr s)")
    case True
    then have "loopUDPRead E d s = (r, s')" using L ln by (simp add: loopAccept_def)
    then show ?thesis using open_inv_quiet[OF I quiet_loopUDPRead] by blast
  next
    case False
    obtain nfd peer err where A: "Accept_res E (trace s) d = (nfd, peer, err)"
      by (metis prod.exhaust)
    define s1 where "s1 = emit (EvAccept d) s"
    have I1: "open_inv s1" unfolding s1_def
      by (rule open_inv_quiet[OF I quiet_emit]) simp
    show ?thesis
    proof (cases err)
      case (Some e)
      then have "s' = s1"
        using L ln False unfolding loopAccept_def A Let_def prod.case s1_def[symmetric]
        by (auto split: if_splits)
      then show ?thesis using I1 by simp
    next
      case None
      define s2 where "s2 = emit (EvSetNonblock nfd) s1"
      have I2: "open_inv s2" unfolding s2_def
        by (rule open_inv_quiet[OF I1 quiet_emit]) simp
      show ?thesis
      proof (cases "SetNonblock_res E (trace s1) nfd")
        case (Some e)
        then have "s' = s2"
          using L ln False None unfolding loopAccept_def A Let_def prod.case s1_def[symmetric]
            s2_def[symmetric]
          by simp
        then show ?thesis using I2 by simp
      next
        case sn: None
        define k where "k = \<lparr>fd = nfd, sa = peer, extra = [], opened = False,
                               action = None_act, localAddr = Addr_nil,
                               remoteAddr = Addr_nil,
                               inBuf = New (connRingBufferSize E),
                               outBuf = New (connRingBufferSize E)\<rparr>"
        define s3 where "s3 = s2\<lparr>store := (store s2)(next_ref s2 := k),
                                 next_ref := Suc (next_ref s2)\<rparr>"
        define s4 where "s4 = emit (EvAddReadWrite nfd) s3"
        have I3: "open_inv s3" unfolding s3_def
          by (rule open_inv_alloc[OF I2]) (simp add: k_def)
        have I4: "open_inv s4" unfolding s4_def
          by (rule open_inv_quiet[OF I3 quiet_emit]) simp
        have c4: "next_ref s2 < next_ref s4" by (simp add: s4_def s3_def emit_def)
        have "s' = s4 \<or> s' = s4\<lparr>connections := (connections s4)(nfd \<mapsto> next_ref s2)\<rparr>"
          using L ln False None sn unfolding loopAccept_def A Let_def prod.case s1_def[symmetric]
            s2_def[symmetric] option.case k_def[symmetric] s3_def[symmetric] s4_def[symmetric]
          by (auto split: option.splits)
        then show ?thesis using I4 open_inv_connect[OF I4 c4] by auto
      qed
    qed
  qed
qed

lemma open_inv_dispatch:
  assumes I: "open_inv s" and d: "d \<noteq> 0" and L: "dispatch E d job s = (r, s')"
  shows "open_inv s'"
proof (cases "connections s d")
  case None
  then show ?thesis using open_inv_loopAccept[OF I] L d by (simp add: dispatch_def)
next
  case (Some c)
  note c = open_inv_less[OF I Some]
  show ?thesis
  proof (cases "opened (store s c)")
    case False
    then show ?thesis
      using open_inv_loopOpened(1)[OF I c False] L d Some by (simp add: dispatch_def)
  next
    case True
    then show ?thesis
      using open_inv_loopRead(1)[OF I c True] open_inv_quiet[OF I quiet_loopWrite] L d Some
      by (auto simp: dispatch_def split: if_splits)
  qed
qed

lemma open_inv_Polling:
  assumes J: "\<forall>(d, job) \<in> set evs. d = 0 \<longrightarrow> (\<forall>t. open_inv t \<longrightarrow> open_inv (snd (job t)))"
  shows "open_inv s \<Longrightarrow> open_inv (snd (Polling (dispatch E) evs s))"
  using J
proof (induction evs arbitrary: s)
  case Nil
  then show ?case by simp
next
  case (Cons ev evs)
  obtain d job where ev: "ev = (d, job)" by (metis prod.exhaust)
  obtain r s' where D: "dispatch E d job s = (r, s')" by (metis prod.exhaust)
  have I': "open_inv s'"
  proof (cases "d = 0")
    case True
    then have "s' = snd (job s)" using D by (simp add: dispatch_def)
    then show ?thesis using Cons.prems True ev by auto
  next
    case False
    then show ?thesis using open_inv_dispatch[OF Cons.prems(1) False D] by simp
  qed
  show ?case using Cons.IH[OF I'] Cons.prems(2) I' by (simp add: ev D)
qed

lemma open_inv_loopRun:
  assumes I: "open_inv s"
    and J: "\<forall>(d, job) \<in> set evs. d = 0 \<longrightarrow> (\<forall>t. open_inv t \<longrightarrow> open_inv (snd (job t)))"
  shows "open_inv (loopRun E evs s)"
proof -
  obtain r s' where P: "Polling (dispatch E) evs s = (r, s')" by (metis prod.exhaust)
  have I': "open_inv s'" using open_inv_Polling[OF J I, of E] by (simp add: P)
  have "open_inv (emit EvSignalShutdown s')"
    by (rule open_inv_quiet[OF I' quiet_emit]) simp
  then show ?thesis using I' by (simp add: loopRun_def P split: option.splits)
qed

lemma react_after_open_count:
  assumes "react_after_open c tr" and "EvReact c \<in> set tr"
  shows "1 \<le> count_list tr (EvOnOpened c)"
proof -
  obtain i where "i < length tr" "tr ! i = EvReact c"
    using assms(2) by (metis in_set_conv_nth)
  then have "EvOnOpened c \<in> set (take i tr)" using assms(1) by (simp add: react_after_open_def)
  then have "EvOnOpened c \<in> set tr" by (meson in_set_takeD)
  then have "count_list tr (EvOnOpened c) \<noteq> 0" by (simp add: count_list_0_iff)
  then show ?thesis by simp
qed


text \<open>
  Claim C1, as the code has it. Start from a loop whose trace and \<^verbatim>\<open>opened\<close> flags agree (a
  fresh loop does) and let the loop dispatch any list of readiness events, the injected jobs
  among them keeping that agreement. Then for every stream connection the open callback is
  in the trace at most once, every data callback for the connection comes after its open
  callback, and a connection with a data callback in the trace has exactly one open
  callback. For a single event of a known connection: the dispatch runs \<open>loopOpened\<close> exactly
  when the connection is not opened yet, \<open>loopOpened\<close> sets the flag and calls the open
  callback once and no data callback, and on an opened connection the dispatch does not
  call the open callback.
\<close>

theorem open_once_before_react:
  assumes I: "open_inv s"
    and J: "\<forall>(d, job) \<in> set evs. d = 0 \<longrightarrow> (\<forall>t. open_inv t \<longrightarrow> open_inv (snd (job t)))"
  shows "(\<forall>c. count_list (trace (loopRun E evs s)) (EvOnOpened c) \<le> 1 \<and>
              react_after_open c (trace (loopRun E evs s)) \<and>
              (EvReact c \<in> set (trace (loopRun E evs s)) \<longrightarrow>
                 count_list (trace (loopRun E evs s)) (EvOnOpened c) = 1)) \<and>
         (\<forall>d c job. d \<noteq> 0 \<and> connections s d = Some c \<longrightarrow>
            (opened (store s c) \<longrightarrow>
               EvOnOpened c \<notin> set (new_events s (snd (dispatch E d job s)))) \<and>
            (\<not> opened (store s c) \<longrightarrow>
               dispatch E d job s = loopOpened E c s \<and>
               opened (store (snd (loopOpened E c s)) c) \<and>
               count_list (new_events s (snd (loopOpened E c s))) (EvOnOpened c) = 1 \<and>
               EvReact c \<notin> set (new_events s (snd (loopOpened E c s)))))"
proof (intro conjI allI impI)
  fix c
  let ?tr = "trace (loopRun E evs s)"
  have R: "open_inv (loopRun E evs s)" by (rule open_inv_loopRun[OF I J])
  show 1: "count_list ?tr (EvOnOpened c) \<le> 1" using R unfolding open_inv_def by blast
  show 2: "react_after_open c ?tr" using R unfolding open_inv_def by blast
  assume "EvReact c \<in> set ?tr"
  then show "count_list ?tr (EvOnOpened c) = 1"
    using react_after_open_count[OF 2] 1 by simp
next
  fix d c job
  assume h: "d \<noteq> 0 \<and> connections s d = Some c"
  note c = open_inv_less[OF I h[THEN conjunct2]]
  {
    assume o: "opened (store s c)"
    obtain r s' where D: "dispatch E d job s = (r, s')" by (metis prod.exhaust)
    have "loopWrite E c s = (r, s') \<or> loopRead E c s = (r, s')"
      using D h o by (auto simp: dispatch_def split: if_splits)
    then obtain es where es: "trace s' = trace s @ es" "\<forall>k. EvOnOpened k \<notin> set es"
      using quiet_step_no_open[OF quiet_loopWrite] open_inv_loopRead(2)[OF I c o] by blast
    show "EvOnOpened c \<notin> set (new_events s (snd (dispatch E d job s)))"
      using es by (simp add: D new_events_def)
  }
  {
    assume n: "\<not> opened (store s c)"
    show "dispatch E d job s = loopOpened E c s" using h n by (simp add: dispatch_def)
    obtain r s' where L: "loopOpened E c s = (r, s')" by (metis prod.exhaust)
    show "opened (store (snd (loopOpened E c s)) c)"
      using open_inv_loopOpened(2)[OF I c n L] by (simp add: L)
    obtain es where es: "trace s' = trace s @ EvOnOpened c # es" "\<forall>e \<in> set es. \<not> is_callback e"
      using open_inv_loopOpened(3)[OF I c n L] by blast
    note nc = not_callback_mem[OF es(2)]
    show "count_list (new_events s (snd (loopOpened E c s))) (EvOnOpened c) = 1"
      using es(1) nc by (simp add: L new_events_def count_list_0_iff)
    show "EvReact c \<notin> set (new_events s (snd (loopOpened E c s)))"
      using es(1) nc by (simp add: L new_events_def)
  }
qed

theorem open_once_before_react_witness:
  "trace (loopRun env0 [(3, job_nil), (7, job_nil), (0, job_nil), (7, job_nil)] loop0) =
     [EvAccept 3, EvSetNonblock 7, EvAddReadWrite 7, EvOnOpened 0, EvRead 7, EvReact 0] \<and>
   count_list (trace (loopRun env0 [(3, job_nil), (7, job_nil), (0, job_nil), (7, job_nil)] loop0))
     (EvOnOpened 0) = 1"
proof -
  have I: "open_inv loop0"
    by (simp add: open_inv_def loop0_def react_after_open_def)
  have J: "\<forall>(d, job) \<in> set [(3, job_nil), (7, job_nil), (0, job_nil), (7, job_nil)].
             d = 0 \<longrightarrow> (\<forall>t. open_inv t \<longrightarrow> open_inv (snd (job t)))"
    by (simp add: job_nil_def)
  have tr: "trace (loopRun env0 [(3, job_nil), (7, job_nil), (0, job_nil), (7, job_nil)] loop0) =
     [EvAccept 3, EvSetNonblock 7, EvAddReadWrite 7, EvOnOpened 0, EvRead 7, EvReact 0]"
    by code_simp
  have "EvReact 0 \<in> set (trace (loopRun env0 [(3, job_nil), (7, job_nil), (0, job_nil), (7, job_nil)] loop0))"
    unfolding tr by simp
  then show ?thesis
    using open_once_before_react [OF I J, of env0] tr by blast
qed

text \<open>
  Claim C1, as stated, fails in one respect: "exactly once for every connection managed by
  a loop". The loop accepts a connection on descriptor 7 and is stopped by the next event,
  a job that returns the shutdown error. The connection is in the table, the loop has ended,
  and the open callback was never called for it.
\<close>

theorem accepted_connection_never_opened:
  "connections (loopRun env0 [(3, job_nil), (0, job_stop)] loop0) 7 = Some 0 \<and>
   count_list (trace (loopRun env0 [(3, job_nil), (0, job_stop)] loop0)) (EvOnOpened 0) = 0 \<and>
   trace (loopRun env0 [(3, job_nil), (0, job_stop)] loop0) =
     [EvAccept 3, EvSetNonblock 7, EvAddReadWrite 7, EvSignalShutdown]"
  by code_simp

end
